theory Spec2Isabelle
  imports Main
begin

section \<open>JavaScript strings\<close>

text \<open>
  A JavaScript string is a sequence of UTF-16 code units, and \<open>indexOf\<close>, \<open>slice\<close>,
  \<open>startsWith\<close>, \<open>endsWith\<close> and \<open>trim\<close> all count code units. The model keeps
  a string as the list of its code units; \<open>jstr\<close> turns a literal of the source into
  that list.
\<close>

type_synonym jstring = "nat list"

definition jstr :: "string \<Rightarrow> jstring" where
  "jstr s = map of_char s"

definition startsWith :: "jstring \<Rightarrow> jstring \<Rightarrow> bool" where
  \<comment> \<open>\<open>s.startsWith(p)\<close>\<close>
  "startsWith s p = (take (length p) s = p)"

definition endsWith :: "jstring \<Rightarrow> jstring \<Rightarrow> bool" where
  \<comment> \<open>\<open>s.endsWith(p)\<close>\<close>
  "endsWith s p = (length p \<le> length s \<and> drop (length s - length p) s = p)"

definition isWhiteSpace :: "nat \<Rightarrow> bool" where
  \<comment> \<open>the white space and line terminator code units that \<open>trim\<close> removes\<close>
  "isWhiteSpace c =
     (c = 9 \<or> c = 10 \<or> c = 11 \<or> c = 12 \<or> c = 13 \<or> c = 32 \<or> c = 160 \<or> c = 5760
      \<or> (8192 \<le> c \<and> c \<le> 8202) \<or> c = 8232 \<or> c = 8233 \<or> c = 8239 \<or> c = 8287
      \<or> c = 12288 \<or> c = 65279)"

definition trim :: "jstring \<Rightarrow> jstring" where
  \<comment> \<open>\<open>s.trim()\<close>\<close>
  "trim s = rev (dropWhile isWhiteSpace (rev (dropWhile isWhiteSpace s)))"

definition indexOf :: "jstring \<Rightarrow> nat \<Rightarrow> nat option" where
  \<comment> \<open>\<open>s.indexOf(c)\<close> for a single code unit; \<open>None\<close> is the source's \<open>-1\<close>\<close>
  "indexOf s c = (if c \<in> set s then Some (length (takeWhile (\<lambda>d. d \<noteq> c) s)) else None)"

fun digitsOf :: "nat \<Rightarrow> jstring" where
  \<comment> \<open>the decimal digits of a non-negative integer, as \<open>String(n)\<close> gives them\<close>
  "digitsOf n = (if n < 10 then [48 + n] else digitsOf (n div 10) @ [48 + n mod 10])"

section \<open>JSON values and \<open>JSON.parse\<close>\<close>

text \<open>
  The value of a JSON text. A number keeps its lexeme: its floating-point value is
  never computed here. An object keeps its members in the order of the text, a later
  member overriding an earlier one of the same name.
\<close>

datatype json =
    JNull
  | JBool bool
  | JNum jstring
  | JStr jstring
  | JArr "json list"
  | JObj "(jstring \<times> json) list"

datatype token = LBrace | RBrace | LBrack | RBrack | Colon | Comma | Scalar json

datatype lexmode =
    Idle
  | Word jstring
  | Str jstring
  | Esc jstring
  | Hex jstring "nat list"

definition isJsonSpace :: "nat \<Rightarrow> bool" where
  "isJsonSpace c = (c = 9 \<or> c = 10 \<or> c = 13 \<or> c = 32)"

definition isDigit :: "nat \<Rightarrow> bool" where
  "isDigit c = (48 \<le> c \<and> c \<le> 57)"

definition isBare :: "nat \<Rightarrow> bool" where
  \<comment> \<open>the code units of literals and numbers: letters, digits, \<open>+\<close>, \<open>-\<close>, \<open>.\<close>\<close>
  "isBare c = (isDigit c \<or> (97 \<le> c \<and> c \<le> 122) \<or> (65 \<le> c \<and> c \<le> 90)
               \<or> c = 43 \<or> c = 45 \<or> c = 46)"

definition exponentOk :: "jstring \<Rightarrow> bool" where
  \<comment> \<open>nothing, or \<open>e\<close>/\<open>E\<close>, an optional sign and at least one digit\<close>
  "exponentOk r =
     (case r of
        [] \<Rightarrow> True
      | c # r1 \<Rightarrow>
          (c = 101 \<or> c = 69) \<and>
          (let r2 = (case r1 of [] \<Rightarrow> [] | s # t \<Rightarrow> if s = 43 \<or> s = 45 then t else r1)
           in r2 \<noteq> [] \<and> list_all isDigit r2))"

definition fractionOk :: "jstring \<Rightarrow> bool" where
  \<comment> \<open>an optional \<open>.\<close> with at least one digit, then the exponent part\<close>
  "fractionOk r =
     (case r of
        [] \<Rightarrow> True
      | c # r1 \<Rightarrow>
          if c = 46
          then takeWhile isDigit r1 \<noteq> [] \<and> exponentOk (dropWhile isDigit r1)
          else exponentOk r)"

definition isJsonNumber :: "jstring \<Rightarrow> bool" where
  \<comment> \<open>the number grammar of JSON: \<open>-? (0 | [1-9][0-9]*) (.[0-9]+)? ([eE][+-]?[0-9]+)?\<close>\<close>
  "isJsonNumber w =
     (let r = (case w of [] \<Rightarrow> [] | c # t \<Rightarrow> if c = 45 then t else w);
          ip = takeWhile isDigit r
      in (ip = [48] \<or> (ip \<noteq> [] \<and> hd ip \<noteq> 48)) \<and> fractionOk (dropWhile isDigit r))"

definition finishWord :: "jstring \<Rightarrow> token option" where
  "finishWord w =
     (if w = jstr ''true'' then Some (Scalar (JBool True))
      else if w = jstr ''false'' then Some (Scalar (JBool False))
      else if w = jstr ''null'' then Some (Scalar JNull)
      else if isJsonNumber w then Some (Scalar (JNum w))
      else None)"

definition unescape :: "nat \<Rightarrow> nat option" where
  \<comment> \<open>the code unit a two-character escape stands for\<close>
  "unescape c =
     (if c = 34 \<or> c = 92 \<or> c = 47 then Some c
      else if c = 98 then Some 8
      else if c = 102 then Some 12
      else if c = 110 then Some 10
      else if c = 114 then Some 13
      else if c = 116 then Some 9
      else None)"

definition hexValue :: "nat \<Rightarrow> nat option" where
  "hexValue c =
     (if isDigit c then Some (c - 48)
      else if 97 \<le> c \<and> c \<le> 102 then Some (c - 87)
      else if 65 \<le> c \<and> c \<le> 70 then Some (c - 55)
      else None)"

definition idle :: "nat \<Rightarrow> token list \<Rightarrow> (lexmode \<times> token list) option" where
  \<comment> \<open>one code unit read between tokens\<close>
  "idle c acc =
     (if isJsonSpace c then Some (Idle, acc)
      else if c = 123 then Some (Idle, acc @ [LBrace])
      else if c = 125 then Some (Idle, acc @ [RBrace])
      else if c = 91 then Some (Idle, acc @ [LBrack])
      else if c = 93 then Some (Idle, acc @ [RBrack])
      else if c = 58 then Some (Idle, acc @ [Colon])
      else if c = 44 then Some (Idle, acc @ [Comma])
      else if c = 34 then Some (Str [], acc)
      else if isBare c then Some (Word [c], acc)
      else None)"

fun scan :: "lexmode \<Rightarrow> token list \<Rightarrow> jstring \<Rightarrow> token list option" where
  "scan Idle acc [] = Some acc"
| "scan (Word w) acc [] = (case finishWord w of None \<Rightarrow> None | Some t \<Rightarrow> Some (acc @ [t]))"
| "scan (Str s) acc [] = None"
| "scan (Esc s) acc [] = None"
| "scan (Hex s ds) acc [] = None"
| "scan Idle acc (c # cs) =
     (case idle c acc of None \<Rightarrow> None | Some (m, acc') \<Rightarrow> scan m acc' cs)"
| "scan (Word w) acc (c # cs) =
     (if isBare c then scan (Word (w @ [c])) acc cs
      else (case finishWord w of
              None \<Rightarrow> None
            | Some t \<Rightarrow>
                (case idle c (acc @ [t]) of
                   None \<Rightarrow> None
                 | Some (m, acc') \<Rightarrow> scan m acc' cs)))"
| "scan (Str s) acc (c # cs) =
     (if c = 34 then scan Idle (acc @ [Scalar (JStr s)]) cs
      else if c = 92 then scan (Esc s) acc cs
      else if c < 32 then None
      else scan (Str (s @ [c])) acc cs)"
| "scan (Esc s) acc (c # cs) =
     (if c = 117 then scan (Hex s []) acc cs
      else (case unescape c of None \<Rightarrow> None | Some d \<Rightarrow> scan (Str (s @ [d])) acc cs))"
| "scan (Hex s ds) acc (c # cs) =
     (case hexValue c of
        None \<Rightarrow> None
      | Some d \<Rightarrow>
          if length ds = 3
          then scan (Str (s @ [foldl (\<lambda>a h. 16 * a + h) 0 (ds @ [d])])) acc cs
          else scan (Hex s (ds @ [d])) acc cs)"

datatype expect = Value | ValueOrEnd | KeyOrEnd | Key | ColonNext | CommaOrEnd | Finished json

datatype frame = ArrF "json list" | ObjF "(jstring \<times> json) list" "jstring option"

definition deliver :: "json \<Rightarrow> frame list \<Rightarrow> (expect \<times> frame list) option" where
  \<comment> \<open>a complete value goes to the innermost open array or object\<close>
  "deliver v st =
     (case st of
        [] \<Rightarrow> Some (Finished v, [])
      | ArrF xs # st' \<Rightarrow> Some (CommaOrEnd, ArrF (xs @ [v]) # st')
      | ObjF kvs None # st' \<Rightarrow> None
      | ObjF kvs (Some k) # st' \<Rightarrow> Some (CommaOrEnd, ObjF (kvs @ [(k, v)]) None # st'))"

definition closeArr :: "frame list \<Rightarrow> (expect \<times> frame list) option" where
  "closeArr st = (case st of ArrF xs # st' \<Rightarrow> deliver (JArr xs) st' | _ \<Rightarrow> None)"

definition closeObj :: "frame list \<Rightarrow> (expect \<times> frame list) option" where
  "closeObj st = (case st of ObjF kvs None # st' \<Rightarrow> deliver (JObj kvs) st' | _ \<Rightarrow> None)"

definition openKey :: "jstring \<Rightarrow> frame list \<Rightarrow> (expect \<times> frame list) option" where
  "openKey k st =
     (case st of ObjF kvs None # st' \<Rightarrow> Some (ColonNext, ObjF kvs (Some k) # st') | _ \<Rightarrow> None)"

definition startValue :: "token \<Rightarrow> frame list \<Rightarrow> (expect \<times> frame list) option" where
  "startValue t st =
     (case t of
        Scalar v \<Rightarrow> deliver v st
      | LBrack \<Rightarrow> Some (ValueOrEnd, ArrF [] # st)
      | LBrace \<Rightarrow> Some (KeyOrEnd, ObjF [] None # st)
      | _ \<Rightarrow> None)"

fun accept :: "expect \<Rightarrow> frame list \<Rightarrow> token \<Rightarrow> (expect \<times> frame list) option" where
  "accept Value st t = startValue t st"
| "accept ValueOrEnd st t = (if t = RBrack then closeArr st else startValue t st)"
| "accept KeyOrEnd st t =
     (case t of RBrace \<Rightarrow> closeObj st | Scalar (JStr k) \<Rightarrow> openKey k st | _ \<Rightarrow> None)"
| "accept Key st t = (case t of Scalar (JStr k) \<Rightarrow> openKey k st | _ \<Rightarrow> None)"
| "accept ColonNext st t = (if t = Colon then Some (Value, st) else None)"
| "accept CommaOrEnd st t =
     (case t of
        Comma \<Rightarrow> (case st of
                    ArrF xs # st' \<Rightarrow> Some (Value, st)
                  | ObjF kvs None # st' \<Rightarrow> Some (Key, st)
                  | _ \<Rightarrow> None)
      | RBrack \<Rightarrow> closeArr st
      | RBrace \<Rightarrow> closeObj st
      | _ \<Rightarrow> None)"
| "accept (Finished v) st t = None"

fun parseTokens :: "expect \<Rightarrow> frame list \<Rightarrow> token list \<Rightarrow> json option" where
  "parseTokens e st [] = (case e of Finished v \<Rightarrow> Some v | _ \<Rightarrow> None)"
| "parseTokens e st (t # ts) =
     (case accept e st t of None \<Rightarrow> None | Some (e', st') \<Rightarrow> parseTokens e' st' ts)"

definition JSON_parse :: "jstring \<Rightarrow> json option" where
  \<comment> \<open>\<open>JSON.parse(s)\<close>; \<open>None\<close> is the SyntaxError it throws\<close>
  "JSON_parse s = (case scan Idle [] s of None \<Rightarrow> None | Some ts \<Rightarrow> parseTokens Value [] ts)"

section \<open>Reading a parsed value\<close>

text \<open>
  \<open>member name v\<close> is \<open>v.name\<close> for a value that is not \<open>null\<close>, with \<open>None\<close>
  for \<open>undefined\<close>. It is used for the names \<open>choices\<close>, \<open>delta\<close>, \<open>content\<close> and
  \<open>error\<close>, which no built-in prototype defines, so only an object's own member can
  answer. \<open>first v\<close> is \<open>v[0]\<close>: the first element of an array, the first code unit
  of a string, the member \<open>"0"\<close> of an object.
\<close>

fun member :: "jstring \<Rightarrow> json \<Rightarrow> json option" where
  "member name (JObj kvs) = map_of (rev kvs) name"
| "member name v = None"

fun first :: "json \<Rightarrow> json option" where
  "first (JArr xs) = (case xs of [] \<Rightarrow> None | x # _ \<Rightarrow> Some x)"
| "first (JStr s) = (case s of [] \<Rightarrow> None | c # _ \<Rightarrow> Some (JStr [c]))"
| "first (JObj kvs) = map_of (rev kvs) (jstr ''0'')"
| "first v = None"

definition optChain :: "(json \<Rightarrow> json option) \<Rightarrow> json option \<Rightarrow> json option" where
  \<comment> \<open>\<open>v?.f\<close>: \<open>undefined\<close> when \<open>v\<close> is \<open>undefined\<close> or \<open>null\<close>\<close>
  "optChain f v = (case v of None \<Rightarrow> None | Some JNull \<Rightarrow> None | Some j \<Rightarrow> f j)"

definition deltaContent :: "json \<Rightarrow> json option option" where
  \<comment> \<open>\<open>parsed.choices?.[0]?.delta?.content\<close>; the outer \<open>None\<close> is the TypeError of
      reading \<open>choices\<close> of \<open>null\<close>\<close>
  "deltaContent parsed =
     (if parsed = JNull then None
      else Some (optChain (member (jstr ''content''))
                  (optChain (member (jstr ''delta''))
                    (optChain first (member (jstr ''choices'') parsed)))))"

fun join :: "jstring \<Rightarrow> jstring list \<Rightarrow> jstring" where
  "join sep [] = []"
| "join sep [x] = x"
| "join sep (x # y # ys) = x @ sep @ join sep (y # ys)"

text \<open>
  The environment of one call of \<open>handleSend\<close>: the three readings of \<open>Date.now()\<close>
  (for the user message, for the assistant turn the first delta opens, for the error
  turn), the engine's rendering of a number, given its JSON lexeme, as a string, and the
  messages of the two TypeErrors the engine can raise here.
\<close>

record env =
  nowUser :: nat
  nowAi :: nat
  nowErr :: nat
  numberToString :: "jstring \<Rightarrow> jstring"
  nullReadMessage :: jstring
  notPrimitiveMessage :: jstring

fun truthy :: "env \<Rightarrow> json option \<Rightarrow> bool" where
  \<comment> \<open>the test of \<open>if (v)\<close> and of \<open>v || w\<close>; zero is the one number rendered \<open>"0"\<close>\<close>
  "truthy e None = False"
| "truthy e (Some JNull) = False"
| "truthy e (Some (JBool b)) = b"
| "truthy e (Some (JNum l)) = (numberToString e l \<noteq> jstr ''0'')"
| "truthy e (Some (JStr s)) = (s \<noteq> [])"
| "truthy e (Some (JArr xs)) = True"
| "truthy e (Some (JObj kvs)) = True"

fun toStr :: "env \<Rightarrow> json \<Rightarrow> jstring option" where
  \<comment> \<open>the string a value becomes under \<open>+=\<close> and \<open>new Error(v)\<close>; \<open>None\<close> is the
      TypeError for an object whose own member \<open>toString\<close> hides the inherited method\<close>
  "toStr e JNull = Some (jstr ''null'')"
| "toStr e (JBool b) = Some (if b then jstr ''true'' else jstr ''false'')"
| "toStr e (JNum l) = Some (numberToString e l)"
| "toStr e (JStr s) = Some s"
| "toStr e (JArr xs) =
     map_option (join [44]) (those (map (\<lambda>x. if x = JNull then Some [] else toStr e x) xs))"
| "toStr e (JObj kvs) =
     (if jstr ''toString'' \<in> fst ` set kvs then None else Some (jstr ''[object Object]''))"

fun stringOf :: "env \<Rightarrow> json option \<Rightarrow> jstring option" where
  \<comment> \<open>the same for a value that may be \<open>undefined\<close>\<close>
  "stringOf e None = Some (jstr ''undefined'')"
| "stringOf e (Some v) = toStr e v"

section \<open>The chat component\<close>

datatype role = User | Assistant

record message =
  id' :: jstring
  role :: role
  content :: jstring

record attachment =
  name :: jstring
  data :: jstring

text \<open>
  The state of the component (\<open>messages\<close>, \<open>input\<close>, \<open>isLoading\<close>, \<open>attachedFile\<close>)
  together with the two locals of a call of \<open>handleSend\<close> that its loops update
  (\<open>textBuffer\<close>, \<open>assistantSoFar\<close>). State updates are applied in the order in which
  the source issues them.
\<close>

record state =
  messages :: "message list"
  input :: jstring
  isLoading :: bool
  attachedFile :: "attachment option"
  textBuffer :: jstring
  assistantSoFar :: jstring

definition reconcile :: "env \<Rightarrow> jstring \<Rightarrow> message list \<Rightarrow> message list" where
  \<comment> \<open>the updater passed to \<open>setMessages\<close> for a delta\<close>
  "reconcile e soFar prev =
     (if prev \<noteq> [] \<and> role (last prev) = Assistant \<and> startsWith (id' (last prev)) (jstr ''ai-'')
      then map (\<lambda>(m, i). if i = length prev - 1 then m\<lparr>content := soFar\<rparr> else m)
             (zip prev [0 ..< length prev])
      else prev @ [\<lparr>id' = jstr ''ai-'' @ digitsOf (nowAi e), role = Assistant, content = soFar\<rparr>])"

definition tryBlock :: "env \<Rightarrow> jstring \<Rightarrow> state \<Rightarrow> state option" where
  \<comment> \<open>the body of the inner \<open>try\<close>; \<open>None\<close> when it throws\<close>
  "tryBlock e jsonStr s =
     (case JSON_parse jsonStr of
        None \<Rightarrow> None
      | Some parsed \<Rightarrow>
          (case deltaContent parsed of
             None \<Rightarrow> None
           | Some c \<Rightarrow>
               if truthy e c
               then (case stringOf e c of
                       None \<Rightarrow> None
                     | Some t \<Rightarrow>
                         Some (s\<lparr>assistantSoFar := assistantSoFar s @ t,
                                 messages := reconcile e (assistantSoFar s @ t) (messages s)\<rparr>))
               else Some s))"

definition dataLine :: "jstring \<Rightarrow> jstring option" where
  \<comment> \<open>the two \<open>continue\<close> tests and the slice: \<open>jsonStr\<close> of a line that is not skipped\<close>
  "dataLine line =
     (if startsWith line (jstr '':'') \<or> trim line = [] then None
      else if \<not> startsWith line (jstr ''data: '') then None
      else Some (trim (drop 6 line)))"

datatype flow = Continue state | Break state

definition processLine :: "env \<Rightarrow> jstring \<Rightarrow> state \<Rightarrow> flow" where
  \<comment> \<open>the body of the inner loop for one line, the line already cut off \<open>textBuffer\<close>\<close>
  "processLine e line s =
     (case dataLine line of
        None \<Rightarrow> Continue s
      | Some jsonStr \<Rightarrow>
          if jsonStr = jstr ''[DONE]'' then Break s
          else (case tryBlock e jsonStr s of
                  Some s' \<Rightarrow> Continue s'
                | None \<Rightarrow> Break (s\<lparr>textBuffer := line @ [10] @ textBuffer s\<rparr>)))"

definition stripCR :: "jstring \<Rightarrow> jstring" where
  \<comment> \<open>\<open>if (line.endsWith('\r')) line = line.slice(0, -1)\<close>\<close>
  "stripCR line = (if endsWith line [13] then butlast line else line)"

definition nextLine :: "jstring \<Rightarrow> (jstring \<times> jstring) option" where
  \<comment> \<open>the line up to the first newline, without a final carriage return, and the rest\<close>
  "nextLine buf =
     (case indexOf buf 10 of
        None \<Rightarrow> None
      | Some newlineIndex \<Rightarrow>
          Some (stripCR (take newlineIndex buf), drop (newlineIndex + 1) buf))"

function drain :: "env \<Rightarrow> state \<Rightarrow> state" where
  "drain e s =
     (case nextLine (textBuffer s) of
        None \<Rightarrow> s
      | Some (line, rest) \<Rightarrow>
          (case processLine e line (s\<lparr>textBuffer := rest\<rparr>) of
             Continue s' \<Rightarrow> drain e s'
           | Break s' \<Rightarrow> s'))"
  by pat_completeness auto

datatype read = Chunk jstring | ReadFailure jstring

datatype result = Returned state | Threw jstring state

fun pump :: "env \<Rightarrow> read list \<Rightarrow> state \<Rightarrow> result" where
  \<comment> \<open>the outer loop over the reads of the body; the end of the list is \<open>done\<close>\<close>
  "pump e [] s = Returned s"
| "pump e (Chunk v # rs) s = pump e rs (drain e (s\<lparr>textBuffer := textBuffer s @ v\<rparr>))"
| "pump e (ReadFailure m # rs) s = Threw m s"

section \<open>\<open>handleSend\<close>\<close>

text \<open>
  What \<open>fetch\<close> gives: a rejection with its message, or a response with a status and a
  body. The body is \<open>None\<close> when \<open>resp.body\<close> is \<open>null\<close>, and otherwise the finite list
  of what the successive \<open>reader.read()\<close> calls give before \<open>done\<close>: a chunk, as the
  text the streaming decoder makes of it, or a rejection with its message.
\<close>

record response =
  status :: nat
  body :: "read list option"

datatype fetched = FetchFailure jstring | Response response

definition ok :: "response \<Rightarrow> bool" where
  \<comment> \<open>\<open>resp.ok\<close>\<close>
  "ok r = (200 \<le> status r \<and> status r \<le> 299)"

fun readAll :: "read list \<Rightarrow> jstring option" where
  \<comment> \<open>the whole text of a body; \<open>None\<close> when a read fails\<close>
  "readAll [] = Some []"
| "readAll (Chunk v # rs) = (case readAll rs of None \<Rightarrow> None | Some t \<Rightarrow> Some (v @ t))"
| "readAll (ReadFailure m # rs) = None"

definition errData :: "response \<Rightarrow> json" where
  \<comment> \<open>\<open>await resp.json().catch(() => ({}))\<close>\<close>
  "errData r =
     (case body r of
        None \<Rightarrow> JObj []
      | Some rs \<Rightarrow>
          (case readAll rs of
             None \<Rightarrow> JObj []
           | Some t \<Rightarrow> (case JSON_parse t of None \<Rightarrow> JObj [] | Some j \<Rightarrow> j)))"

definition errorMessage :: "env \<Rightarrow> response \<Rightarrow> jstring" where
  \<comment> \<open>the message of what \<open>throw new Error(errData.error || `Error ${resp.status}`)\<close>
      throws: the Error it builds, or a TypeError of the engine\<close>
  "errorMessage e r =
     (if errData r = JNull then nullReadMessage e
      else if truthy e (member (jstr ''error'') (errData r))
      then (case stringOf e (member (jstr ''error'') (errData r)) of
              None \<Rightarrow> notPrimitiveMessage e
            | Some m \<Rightarrow> m)
      else jstr ''Error '' @ digitsOf (status r))"

definition tryBody :: "env \<Rightarrow> fetched \<Rightarrow> state \<Rightarrow> result" where
  \<comment> \<open>the outer \<open>try\<close> block\<close>
  "tryBody e f s =
     (case f of
        FetchFailure m \<Rightarrow> Threw m s
      | Response r \<Rightarrow>
          if \<not> ok r then Threw (errorMessage e r) s
          else (case body r of
                  None \<Rightarrow> Threw (jstr ''No response body'') s
                | Some rs \<Rightarrow> pump e rs (s\<lparr>textBuffer := []\<rparr>)))"

definition userContent :: "state \<Rightarrow> jstring" where
  "userContent s =
     (case attachedFile s of
        None \<Rightarrow> trim (input s)
      | Some file \<Rightarrow>
          (if trim (input s) \<noteq> [] then trim (input s) @ [10, 10] else [])
          @ jstr ''[Attached Portfolio]'' @ [10] @ data file)"

definition displayContent :: "state \<Rightarrow> jstring" where
  \<comment> \<open>the four code units before the space are the marker as the source file has it\<close>
  "displayContent s =
     (case attachedFile s of
        None \<Rightarrow> trim (input s)
      | Some file \<Rightarrow>
          trim (input s) @ (if trim (input s) \<noteq> [] then [10, 10] else [])
          @ [240, 376, 8220, 381, 32] @ name file)"

definition allMessages :: "env \<Rightarrow> state \<Rightarrow> (role \<times> jstring) list" where
  \<comment> \<open>the \<open>messages\<close> of the request body\<close>
  "allMessages e s =
     map (\<lambda>m. (role m, content m))
       (filter (\<lambda>m. id' m \<noteq> jstr ''1'') (messages s)
        @ [\<lparr>id' = digitsOf (nowUser e), role = User, content = userContent s\<rparr>])"

definition errorTurn :: "env \<Rightarrow> jstring \<Rightarrow> message" where
  \<comment> \<open>the message the \<open>catch\<close> appends\<close>
  "errorTurn e m =
     \<lparr>id' = jstr ''err-'' @ digitsOf (nowErr e), role = Assistant,
      content = jstr ''Sorry, I encountered an error: '' @ m @ jstr ''. Please try again.''\<rparr>"

definition handleSend :: "env \<Rightarrow> fetched \<Rightarrow> state \<Rightarrow> state" where
  "handleSend e f s =
     (if (trim (input s) = [] \<and> attachedFile s = None) \<or> isLoading s then s
      else (case tryBody e f
                   (s\<lparr>messages := messages s
                          @ [\<lparr>id' = digitsOf (nowUser e), role = User, content = displayContent s\<rparr>],
                       input := [], attachedFile := None, isLoading := True,
                       assistantSoFar := []\<rparr>) of
              Returned s' \<Rightarrow> s'\<lparr>isLoading := False\<rparr>
            | Threw m s' \<Rightarrow> s'\<lparr>messages := messages s' @ [errorTurn e m], isLoading := False\<rparr>))"

section \<open>Example inputs\<close>

definition exampleEnv :: env where
  "exampleEnv =
     \<lparr>nowUser = 1000, nowAi = 2000, nowErr = 3000, numberToString = (\<lambda>l. l),
      nullReadMessage = jstr ''Cannot read properties of null'',
      notPrimitiveMessage = jstr ''Cannot convert object to primitive value''\<rparr>"

definition exampleState :: state where
  "exampleState =
     \<lparr>messages = [\<lparr>id' = jstr ''1'', role = Assistant, content = jstr ''Welcome''\<rparr>],
      input = jstr ''hi'', isLoading = False, attachedFile = None,
      textBuffer = [], assistantSoFar = []\<rparr>"

definition userTurn :: message where
  \<comment> \<open>what a send from \<open>exampleState\<close> in \<open>exampleEnv\<close> displays for the user\<close>
  "userTurn = \<lparr>id' = jstr ''1000'', role = User, content = jstr ''hi''\<rparr>"

definition streaming :: "read list \<Rightarrow> fetched" where
  "streaming rs = Response \<lparr>status = 200, body = Some rs\<rparr>"

definition deltaX :: jstring where
  "deltaX = jstr ''data: {\"choices\":[{\"delta\":{\"content\":\"X\"}}]}''"

definition doneLine :: jstring where
  "doneLine = jstr ''data: [DONE]''"

definition aiTurn :: "env \<Rightarrow> jstring \<Rightarrow> message" where
  \<comment> \<open>the turn that \<open>reconcile\<close> opens, with the given content\<close>
  "aiTurn e c = \<lparr>id' = jstr ''ai-'' @ digitsOf (nowAi e), role = Assistant, content = c\<rparr>"

definition greeting :: message where
  "greeting = \<lparr>id' = jstr ''1'', role = Assistant, content = jstr ''Welcome''\<rparr>"

definition failing :: "nat \<Rightarrow> jstring \<Rightarrow> fetched" where
  \<comment> \<open>a response with the given status whose whole body arrives as one chunk\<close>
  "failing n b = Response \<lparr>status = n, body = Some [Chunk b]\<rparr>"

definition splitHead :: jstring where
  "splitHead = jstr ''data: {\"choices\":[{\"delta\":''"

definition splitTail :: jstring where
  "splitTail = jstr ''{\"content\":\"Hi\"}}]}''"

definition brokenLine :: jstring where
  "brokenLine = jstr ''data: {\"choices\":[''"

definition partialLine :: jstring where
  "partialLine = jstr ''data: {\"cho''"

section \<open>Notions for stating the properties\<close>

definition lineEffect :: "env \<Rightarrow> jstring \<Rightarrow> jstring option option" where
  \<comment> \<open>what a line does when the loop body does not \<open>break\<close> on it: \<open>Some None\<close> for a
      line that is skipped or whose payload parses without truthy content,
      \<open>Some (Some d)\<close> for a line whose content becomes the delta \<open>d\<close>; \<open>None\<close> for
      the sentinel and for a payload on which the \<open>try\<close> block throws\<close>
  "lineEffect e line =
     (case dataLine line of
        None \<Rightarrow> Some None
      | Some jsonStr \<Rightarrow>
          if jsonStr = jstr ''[DONE]'' then None
          else (case JSON_parse jsonStr of
                  None \<Rightarrow> None
                | Some parsed \<Rightarrow>
                    (case deltaContent parsed of
                       None \<Rightarrow> None
                     | Some c \<Rightarrow>
                         if truthy e c then map_option Some (stringOf e c) else Some None)))"

definition deltas :: "jstring option list \<Rightarrow> jstring list" where
  \<comment> \<open>the deltas among the effects of a list of lines, in order\<close>
  "deltas xs = concat (map (\<lambda>x. case x of None \<Rightarrow> [] | Some d \<Rightarrow> [d]) xs)"

function quiet :: "env \<Rightarrow> state \<Rightarrow> bool" where
  \<comment> \<open>the inner loop, run from this state, ends because no newline is left in
      \<open>textBuffer\<close>, not by a \<open>break\<close>\<close>
  "quiet e s =
     (case nextLine (textBuffer s) of
        None \<Rightarrow> True
      | Some (line, rest) \<Rightarrow>
          (case processLine e line (s\<lparr>textBuffer := rest\<rparr>) of
             Continue s' \<Rightarrow> quiet e s'
           | Break s' \<Rightarrow> False))"
  by pat_completeness auto

definition opened :: "env \<Rightarrow> message list \<Rightarrow> state \<Rightarrow> bool" where
  \<comment> \<open>the transcript is \<open>base\<close>, or \<open>base\<close> followed by the turn of this send, which
      holds \<open>assistantSoFar\<close>\<close>
  "opened e base s =
     (messages s = base \<or> messages s = base @ [aiTurn e (assistantSoFar s)])"

fun digitsValue :: "jstring \<Rightarrow> nat" where
  \<comment> \<open>the number that a list of decimal digits denotes\<close>
  "digitsValue ds = foldl (\<lambda>a c. 10 * a + (c - 48)) 0 ds"

definition tracked :: "env \<Rightarrow> message list \<Rightarrow> state \<Rightarrow> bool" where
  \<comment> \<open>nothing has been streamed and the transcript is \<open>base\<close>, or the transcript is
      \<open>base\<close> followed by the turn of this send, which holds \<open>assistantSoFar\<close>\<close>
  "tracked e base s =
     ((messages s = base \<and> assistantSoFar s = [])
      \<or> messages s = base @ [aiTurn e (assistantSoFar s)])"

definition present :: "env \<Rightarrow> message list \<Rightarrow> jstring \<Rightarrow> state \<Rightarrow> bool" where
  \<comment> \<open>the turn of this send is there, after \<open>base\<close>, and its content begins with \<open>d\<close>\<close>
  "present e base d s =
     (messages s = base @ [aiTurn e (assistantSoFar s)]
      \<and> take (length d) (assistantSoFar s) = d)"

fun withBuffer :: "(jstring \<Rightarrow> jstring) \<Rightarrow> flow \<Rightarrow> flow" where
  "withBuffer f (Continue s) = Continue (s\<lparr>textBuffer := f (textBuffer s)\<rparr>)"
| "withBuffer f (Break s) = Break (s\<lparr>textBuffer := f (textBuffer s)\<rparr>)"

fun feed :: "env \<Rightarrow> message list \<Rightarrow> jstring option list \<Rightarrow> state \<Rightarrow> state" where
  \<comment> \<open>the state after lines with the given effects: each delta is reconciled into the
      turn that follows \<open>base\<close>\<close>
  "feed e base [] s = s"
| "feed e base (None # xs) s = feed e base xs s"
| "feed e base (Some d # xs) s =
     feed e base xs
       (s\<lparr>assistantSoFar := assistantSoFar s @ d,
          messages := base @ [aiTurn e (assistantSoFar s @ d)]\<rparr>)"

definition linesText :: "jstring list \<Rightarrow> jstring" where
  \<comment> \<open>the text of a list of lines, each ended by a newline\<close>
  "linesText ls = concat (map (\<lambda>l. l @ [10]) ls)"

definition helLine :: jstring where
  "helLine = jstr ''data: {\"choices\":[{\"delta\":{\"content\":\"Hel\"}}]}''"

definition loLine :: jstring where
  "loLine = jstr ''data: {\"choices\":[{\"delta\":{\"content\":\"lo\"}}]}''"

definition earlierState :: state where
  \<comment> \<open>a state whose last turn is the assistant turn of an earlier send\<close>
  "earlierState =
     \<lparr>messages = [greeting,
                   \<lparr>id' = jstr ''900'', role = User, content = jstr ''first''\<rparr>,
                   \<lparr>id' = jstr ''ai-950'', role = Assistant, content = jstr ''Earlier''\<rparr>],
      input = jstr ''hi'', isLoading = False, attachedFile = None,
      textBuffer = [], assistantSoFar = []\<rparr>"

definition collidingState :: state where
  \<comment> \<open>as \<open>earlierState\<close>, but the earlier assistant turn was opened at the clock reading
      that \<open>exampleEnv\<close> gives again\<close>
  "collidingState =
     \<lparr>messages = [greeting,
                   \<lparr>id' = jstr ''900'', role = User, content = jstr ''first''\<rparr>,
                   \<lparr>id' = jstr ''ai-2000'', role = Assistant, content = jstr ''Earlier''\<rparr>],
      input = jstr ''hi'', isLoading = False, attachedFile = None,
      textBuffer = [], assistantSoFar = []\<rparr>"

section \<open>Termination of the inner loop\<close>

lemma nextLine_shorter: "nextLine buf = Some (line, rest) \<Longrightarrow> length rest < length buf"
  by (cases buf) (auto simp: nextLine_def indexOf_def split: if_splits)

lemma tryBlock_textBuffer: "tryBlock e j s = Some s' \<Longrightarrow> textBuffer s' = textBuffer s"
  by (auto simp: tryBlock_def split: option.splits if_splits)

lemma processLine_Continue_textBuffer:
  "processLine e line s = Continue s' \<Longrightarrow> textBuffer s' = textBuffer s"
  by (auto simp: processLine_def split: option.splits if_splits dest: tryBlock_textBuffer)

termination drain
proof (relation "measure (\<lambda>(e, s). length (textBuffer s))")
  show "wf (measure (\<lambda>(e, s). length (textBuffer s)))"
    by simp
next
  fix e :: env and s :: state and x2 line rest s'
  assume "nextLine (textBuffer s) = Some x2" and "(line, rest) = x2"
    and "processLine e line (s\<lparr>textBuffer := rest\<rparr>) = Continue s'"
  then show "((e, s'), (e, s)) \<in> measure (\<lambda>(e, s). length (textBuffer s))"
    using nextLine_shorter [of "textBuffer s" line rest]
      processLine_Continue_textBuffer [of e line "s\<lparr>textBuffer := rest\<rparr>" s']
    by simp
qed

declare drain.simps [simp del]

termination quiet
proof (relation "measure (\<lambda>(e, s). length (textBuffer s))")
  show "wf (measure (\<lambda>(e, s). length (textBuffer s)))"
    by simp
next
  fix e :: env and s :: state and x2 line rest s'
  assume "nextLine (textBuffer s) = Some x2" and "(line, rest) = x2"
    and "processLine e line (s\<lparr>textBuffer := rest\<rparr>) = Continue s'"
  then show "((e, s'), (e, s)) \<in> measure (\<lambda>(e, s). length (textBuffer s))"
    using nextLine_shorter [of "textBuffer s" line rest]
      processLine_Continue_textBuffer [of e line "s\<lparr>textBuffer := rest\<rparr>" s']
    by simp
qed

declare quiet.simps [simp del]

declare digitsOf.simps [simp del]

section \<open>Evaluation and basic facts\<close>

lemmas json_eval =
  JSON_parse_def idle_def isJsonSpace_def isBare_def isDigit_def deliver_def closeArr_def
  closeObj_def openKey_def startValue_def finishWord_def isJsonNumber_def fractionOk_def
  exponentOk_def unescape_def hexValue_def

lemmas line_eval =
  jstr_def startsWith_def endsWith_def trim_def isWhiteSpace_def indexOf_def nextLine_def
  stripCR_def
  dataLine_def processLine_def tryBlock_def deltaContent_def optChain_def reconcile_def

lemmas send_eval =
  handleSend_def tryBody_def ok_def displayContent_def errorTurn_def errorMessage_def
  errData_def streaming_def exampleEnv_def exampleState_def userTurn_def digitsOf.simps

lemmas example_eval =
  deltaX_def doneLine_def aiTurn_def greeting_def failing_def splitHead_def splitTail_def
  brokenLine_def partialLine_def helLine_def loLine_def earlierState_def collidingState_def

lemma dropWhile_all: "(\<forall>x \<in> set (dropWhile P s). P x) \<longleftrightarrow> (\<forall>x \<in> set s. P x)"
proof
  assume a: "\<forall>x \<in> set (dropWhile P s). P x"
  have "dropWhile P s = []"
  proof (rule ccontr)
    assume n: "dropWhile P s \<noteq> []"
    then have "\<not> P (hd (dropWhile P s))" by (rule hd_dropWhile)
    moreover have "hd (dropWhile P s) \<in> set (dropWhile P s)" using n by simp
    ultimately show False using a by blast
  qed
  then show "\<forall>x \<in> set s. P x" by (simp only: dropWhile_eq_Nil_conv)
next
  assume "\<forall>x \<in> set s. P x"
  then have "dropWhile P s = []" by (simp only: dropWhile_eq_Nil_conv)
  then show "\<forall>x \<in> set (dropWhile P s). P x" by (simp only: list.set ball_empty)
qed

lemma trim_eq_Nil: "trim s = [] \<longleftrightarrow> (\<forall>c \<in> set s. isWhiteSpace c)"
  by (simp add: trim_def dropWhile_all)

lemma jstr_data_prefix: "jstr ''data: '' = [100, 97, 116, 97, 58, 32]"
  by (simp add: jstr_def)

lemma jstr_colon: "jstr '':'' = [58]"
  by (simp add: jstr_def)

lemma startsWith_append: "startsWith s p \<longleftrightarrow> (\<exists>t. s = p @ t)"
  unfolding startsWith_def
  by (metis append_eq_conv_conj append_take_drop_id)

lemma JSON_parse_DONE: "JSON_parse (jstr ''[DONE]'') = None"
  by (simp add: jstr_def json_eval)

section \<open>The inner loop, step by step\<close>

lemma drain_None: "nextLine (textBuffer s) = None \<Longrightarrow> drain e s = s"
  by (simp add: drain.simps)

lemma drain_Continue:
  "nextLine (textBuffer s) = Some (line, rest) \<Longrightarrow>
   processLine e line (s\<lparr>textBuffer := rest\<rparr>) = Continue s' \<Longrightarrow> drain e s = drain e s'"
  by (simp add: drain.simps [of e s])

lemma drain_Break:
  "nextLine (textBuffer s) = Some (line, rest) \<Longrightarrow>
   processLine e line (s\<lparr>textBuffer := rest\<rparr>) = Break s' \<Longrightarrow> drain e s = s'"
  by (simp add: drain.simps [of e s])

lemma quiet_None: "nextLine (textBuffer s) = None \<Longrightarrow> quiet e s"
  by (simp add: quiet.simps)

lemma quiet_Continue:
  "nextLine (textBuffer s) = Some (line, rest) \<Longrightarrow>
   processLine e line (s\<lparr>textBuffer := rest\<rparr>) = Continue s' \<Longrightarrow> quiet e s = quiet e s'"
  by (simp add: quiet.simps [of e s])

lemma quiet_Break:
  "nextLine (textBuffer s) = Some (line, rest) \<Longrightarrow>
   processLine e line (s\<lparr>textBuffer := rest\<rparr>) = Break s' \<Longrightarrow> \<not> quiet e s"
  by (simp add: quiet.simps [of e s])

lemma nextLine_None: "nextLine buf = None \<longleftrightarrow> 10 \<notin> set buf"
  by (simp add: nextLine_def indexOf_def)

lemma takeWhile_line: "10 \<notin> set l \<Longrightarrow> takeWhile (\<lambda>d. d \<noteq> 10) (l @ 10 # rest) = l"
  by (induction l) auto

lemma nextLine_line: "10 \<notin> set l \<Longrightarrow> nextLine (l @ 10 # rest) = Some (stripCR l, rest)"
  by (simp add: nextLine_def indexOf_def takeWhile_line)

lemma nextLine_Some:
  assumes "nextLine buf = Some (line, rest)"
  shows "\<exists>l. buf = l @ 10 # rest \<and> 10 \<notin> set l \<and> line = stripCR l"
proof -
  from assms have "10 \<in> set buf"
    by (auto simp: nextLine_def indexOf_def split: if_splits)
  then obtain l r where b: "buf = l @ 10 # r" and l: "10 \<notin> set l"
    by (auto dest: split_list_first)
  with assms nextLine_line [OF l, of r] show ?thesis
    by auto
qed

lemma nextLine_append:
  assumes "nextLine buf = Some (line, rest)"
  shows "nextLine (buf @ c) = Some (line, rest @ c)"
proof -
  from nextLine_Some [OF assms] obtain l
    where "buf = l @ 10 # rest" and l: "10 \<notin> set l" and "line = stripCR l"
    by blast
  then show ?thesis
    using nextLine_line [OF l, of "rest @ c"] by simp
qed

lemma tryBlock_buffer:
  "tryBlock e j (s\<lparr>textBuffer := b\<rparr>) = map_option (\<lambda>s'. s'\<lparr>textBuffer := b\<rparr>) (tryBlock e j s)"
  by (simp add: tryBlock_def split: option.splits)

section \<open>Chunk boundaries do not matter while no \<open>break\<close> is taken\<close>

text \<open>
  As long as the inner loop ends for lack of a newline, reading a text in one piece and
  reading it in two pieces lead to the same state. The results about whole streams rest
  on this; it no longer holds once a \<open>break\<close> has been taken.
\<close>

lemma processLine_buffer:
  "processLine e line (s\<lparr>textBuffer := r @ c\<rparr>)
   = withBuffer (\<lambda>b. b @ c) (processLine e line (s\<lparr>textBuffer := r\<rparr>))"
  by (auto simp: processLine_def tryBlock_buffer split: option.splits)

lemma drain_append:
  "quiet e s \<Longrightarrow>
   drain e (s\<lparr>textBuffer := textBuffer s @ c\<rparr>)
   = drain e ((drain e s)\<lparr>textBuffer := textBuffer (drain e s) @ c\<rparr>)"
proof (induction e s rule: drain.induct)
  case (1 e s)
  show ?case
  proof (cases "nextLine (textBuffer s)")
    case None
    then show ?thesis by (simp add: drain_None)
  next
    case (Some p)
    obtain line rest where p: "p = (line, rest)" by (cases p)
    with Some have nl: "nextLine (textBuffer s) = Some (line, rest)" by simp
    show ?thesis
    proof (cases "processLine e line (s\<lparr>textBuffer := rest\<rparr>)")
      case (Continue s')
      have q: "quiet e s'"
        using "1.prems" quiet_Continue [OF nl Continue] by simp
      have b: "textBuffer s' = rest"
        using processLine_Continue_textBuffer [OF Continue] by simp
      have nl': "nextLine (textBuffer (s\<lparr>textBuffer := textBuffer s @ c\<rparr>))
                 = Some (line, rest @ c)"
        using nextLine_append [OF nl] by simp
      have pl: "processLine e line (s\<lparr>textBuffer := textBuffer s @ c\<rparr>\<lparr>textBuffer := rest @ c\<rparr>)
                = Continue (s'\<lparr>textBuffer := textBuffer s' @ c\<rparr>)"
        using processLine_buffer [where e = e and line = line and s = s and r = rest and c = c]
          Continue
        by simp
      have "drain e (s\<lparr>textBuffer := textBuffer s @ c\<rparr>)
            = drain e (s'\<lparr>textBuffer := textBuffer s' @ c\<rparr>)"
        by (rule drain_Continue [OF nl' pl])
      also have "\<dots> = drain e ((drain e s')\<lparr>textBuffer := textBuffer (drain e s') @ c\<rparr>)"
        using "1.IH" [OF Some p [symmetric] Continue q] .
      also have "drain e s' = drain e s"
        using drain_Continue [OF nl Continue] by simp
      finally show ?thesis .
    next
      case (Break s')
      then show ?thesis
        using "1.prems" quiet_Break [OF nl Break] by simp
    qed
  qed
qed

lemma quiet_prefix:
  "quiet e (s\<lparr>textBuffer := textBuffer s @ c\<rparr>) \<Longrightarrow> quiet e s"
proof (induction e s rule: drain.induct)
  case (1 e s)
  show ?case
  proof (cases "nextLine (textBuffer s)")
    case None
    then show ?thesis by (simp add: quiet_None)
  next
    case (Some p)
    obtain line rest where p: "p = (line, rest)" by (cases p)
    with Some have nl: "nextLine (textBuffer s) = Some (line, rest)" by simp
    have nl': "nextLine (textBuffer (s\<lparr>textBuffer := textBuffer s @ c\<rparr>))
               = Some (line, rest @ c)"
      using nextLine_append [OF nl] by simp
    show ?thesis
    proof (cases "processLine e line (s\<lparr>textBuffer := rest\<rparr>)")
      case (Continue s')
      have pl: "processLine e line (s\<lparr>textBuffer := textBuffer s @ c\<rparr>\<lparr>textBuffer := rest @ c\<rparr>)
                = Continue (s'\<lparr>textBuffer := textBuffer s' @ c\<rparr>)"
        using processLine_buffer [where e = e and line = line and s = s and r = rest and c = c]
          Continue
        by simp
      have "quiet e (s'\<lparr>textBuffer := textBuffer s' @ c\<rparr>)"
        using "1.prems" quiet_Continue [OF nl' pl] by simp
      then have "quiet e s'"
        using "1.IH" [OF Some p [symmetric] Continue] by simp
      then show ?thesis
        using quiet_Continue [OF nl Continue] by simp
    next
      case (Break s')
      have pl: "processLine e line (s\<lparr>textBuffer := textBuffer s @ c\<rparr>\<lparr>textBuffer := rest @ c\<rparr>)
                = Break (s'\<lparr>textBuffer := textBuffer s' @ c\<rparr>)"
        using processLine_buffer [where e = e and line = line and s = s and r = rest and c = c]
          Break
        by simp
      then show ?thesis
        using "1.prems" quiet_Break [OF nl' pl] by simp
    qed
  qed
qed

lemma pump_append:
  "pump e (rs @ [Chunk c]) s
   = (case pump e rs s of
        Returned s' \<Rightarrow> Returned (drain e (s'\<lparr>textBuffer := textBuffer s' @ c\<rparr>))
      | Threw m s' \<Rightarrow> Threw m s')"
proof (induction rs arbitrary: s)
  case Nil
  then show ?case by simp
next
  case (Cons r rs)
  then show ?case by (cases r) simp_all
qed

lemma pump_prefix:
  assumes q: "quiet e (s\<lparr>textBuffer := butlast T\<rparr>)"
    and z: "10 \<notin> set (textBuffer (drain e (s\<lparr>textBuffer := T\<rparr>)))"
  shows "(\<exists>y. concat cs @ y = T) \<Longrightarrow>
         pump e (map Chunk cs) (s\<lparr>textBuffer := []\<rparr>)
         = Returned (drain e (s\<lparr>textBuffer := concat cs\<rparr>))"
proof (induction cs rule: rev_induct)
  case Nil
  then show ?case by (simp add: drain_None nextLine_None)
next
  case (snoc c cs)
  from snoc.prems obtain y where y: "concat cs @ c @ y = T" by auto
  let ?S = "drain e (s\<lparr>textBuffer := concat cs\<rparr>)"
  have ih: "pump e (map Chunk cs) (s\<lparr>textBuffer := []\<rparr>) = Returned ?S"
    using snoc.IH y by blast
  have step: "pump e (map Chunk (cs @ [c])) (s\<lparr>textBuffer := []\<rparr>)
              = Returned (drain e (?S\<lparr>textBuffer := textBuffer ?S @ c\<rparr>))"
    using pump_append [of e "map Chunk cs" c] ih by simp
  show ?case
  proof (cases "c @ y = []")
    case True
    then have "concat cs = T" and "c = []" using y by auto
    then show ?thesis
      using step z by (simp add: drain_None nextLine_None)
  next
    case False
    then have "concat cs @ butlast (c @ y) = butlast T"
      using y by (metis butlast_append)
    then have "quiet e (s\<lparr>textBuffer := concat cs\<rparr>\<lparr>textBuffer := textBuffer (s\<lparr>textBuffer := concat cs\<rparr>) @ butlast (c @ y)\<rparr>)"
      using q by simp
    then have "quiet e (s\<lparr>textBuffer := concat cs\<rparr>)"
      by (rule quiet_prefix)
    from drain_append [OF this, of c] show ?thesis
      using step by simp
  qed
qed

lemma quiet_drain_no_newline: "quiet e s \<Longrightarrow> 10 \<notin> set (textBuffer (drain e s))"
proof (induction e s rule: drain.induct)
  case (1 e s)
  show ?case
  proof (cases "nextLine (textBuffer s)")
    case None
    then show ?thesis by (simp add: drain_None nextLine_None)
  next
    case (Some p)
    obtain line rest where p: "p = (line, rest)" by (cases p)
    with Some have nl: "nextLine (textBuffer s) = Some (line, rest)" by simp
    show ?thesis
    proof (cases "processLine e line (s\<lparr>textBuffer := rest\<rparr>)")
      case (Continue s')
      have "quiet e s'"
        using "1.prems" quiet_Continue [OF nl Continue] by simp
      then have "10 \<notin> set (textBuffer (drain e s'))"
        using "1.IH" [OF Some p [symmetric] Continue] by simp
      then show ?thesis
        using drain_Continue [OF nl Continue] by simp
    next
      case (Break s')
      then show ?thesis
        using "1.prems" quiet_Break [OF nl Break] by simp
    qed
  qed
qed

lemma butlast_snoc_last: "T = butlast T @ (if T = [] then [] else [last T])"
  by simp

lemma pump_batch:
  assumes "quiet e (s\<lparr>textBuffer := concat cs\<rparr>)"
  shows "pump e (map Chunk cs) (s\<lparr>textBuffer := []\<rparr>)
         = Returned (drain e (s\<lparr>textBuffer := concat cs\<rparr>))"
proof -
  define T where "T = concat cs"
  have "quiet e (s\<lparr>textBuffer := butlast T\<rparr>\<lparr>textBuffer :=
      textBuffer (s\<lparr>textBuffer := butlast T\<rparr>) @ (if T = [] then [] else [last T])\<rparr>)"
    using assms butlast_snoc_last [of T] by (simp add: T_def)
  then have "quiet e (s\<lparr>textBuffer := butlast T\<rparr>)"
    by (rule quiet_prefix)
  moreover have "10 \<notin> set (textBuffer (drain e (s\<lparr>textBuffer := T\<rparr>)))"
    using assms unfolding T_def by (rule quiet_drain_no_newline)
  moreover have "\<exists>y. concat cs @ y = T"
    by (simp add: T_def)
  ultimately show ?thesis
    by (rule pump_prefix)
qed

lemma chunking_invariance_without_break:
  assumes "quiet e (s\<lparr>textBuffer := concat cs\<rparr>)" and "concat cs' = concat cs"
  shows "pump e (map Chunk cs') (s\<lparr>textBuffer := []\<rparr>)
         = pump e (map Chunk cs) (s\<lparr>textBuffer := []\<rparr>)"
  using assms pump_batch [where e = e and s = s and cs = cs]
    pump_batch [where e = e and s = s and cs = cs'] by simp

lemma stream_end_completes: "\<exists>s'. pump e (map Chunk cs) s = Returned s'"
  by (induction cs arbitrary: s) simp_all

section \<open>The turn of the current send\<close>

lemma zip_upt_map_id:
  "length xs \<le> k \<Longrightarrow> map (\<lambda>(m, i). if i = k then f m else m) (zip xs [0 ..< length xs]) = xs"
  by (rule nth_equalityI) auto

lemma map_last_only:
  "prev \<noteq> [] \<Longrightarrow>
   map (\<lambda>(m, i). if i = length prev - 1 then f m else m) (zip prev [0 ..< length prev])
   = butlast prev @ [f (last prev)]"
proof (induction prev rule: rev_induct)
  case Nil
  then show ?case by simp
next
  case (snoc x xs)
  have "zip (xs @ [x]) [0 ..< length (xs @ [x])] = zip xs [0 ..< length xs] @ [(x, length xs)]"
    by simp
  then show ?case
    using zip_upt_map_id [of xs "length xs" f] by simp
qed

lemma reconcile_opens:
  "base \<noteq> [] \<Longrightarrow> role (last base) = User \<Longrightarrow> reconcile e t base = base @ [aiTurn e t]"
  by (simp add: reconcile_def aiTurn_def)

lemma reconcile_extends: "reconcile e t (base @ [aiTurn e c]) = base @ [aiTurn e t]"
proof -
  have "startsWith (id' (aiTurn e c)) (jstr ''ai-'')"
    by (simp add: aiTurn_def startsWith_def)
  moreover have "role (aiTurn e c) = Assistant"
    by (simp add: aiTurn_def)
  moreover have "(aiTurn e c)\<lparr>content := t\<rparr> = aiTurn e t"
    by (simp add: aiTurn_def)
  ultimately show ?thesis
    using map_last_only [of "base @ [aiTurn e c]" "\<lambda>m. m\<lparr>content := t\<rparr>"]
    by (simp add: reconcile_def)
qed

lemma opened_textBuffer [simp]: "opened e base (s\<lparr>textBuffer := b\<rparr>) = opened e base s"
  by (simp add: opened_def)

lemma reconcile_opened:
  assumes "base \<noteq> []" and "role (last base) = User" and "opened e base s"
  shows "reconcile e t (messages s) = base @ [aiTurn e t]"
  using assms reconcile_opens [of base e t] reconcile_extends [of e t base "assistantSoFar s"]
  by (auto simp: opened_def)

lemma processLine_effect:
  assumes "base \<noteq> []" and "role (last base) = User" and "opened e base s"
    and "lineEffect e line = Some x"
  shows "processLine e line s = Continue (feed e base [x] s)"
proof (cases "dataLine line")
  case None
  then show ?thesis
    using assms(4) by (auto simp: lineEffect_def processLine_def)
next
  case (Some j)
  with assms(4) obtain v c
    where j: "j \<noteq> jstr ''[DONE]''" and v: "JSON_parse j = Some v"
      and c: "deltaContent v = Some c"
      and x: "if truthy e c then map_option Some (stringOf e c) = Some x else x = None"
    by (auto simp: lineEffect_def split: option.splits if_splits)
  show ?thesis
  proof (cases "truthy e c")
    case True
    with x obtain d where "stringOf e c = Some d" and "x = Some d"
      by auto
    then show ?thesis
      using Some j v c True reconcile_opened [OF assms(1-3)]
      by (simp add: processLine_def tryBlock_def)
  next
    case False
    with x have "x = None" by simp
    then show ?thesis
      using Some j v c False by (simp add: processLine_def tryBlock_def)
  qed
qed

lemma feed_textBuffer [simp]: "textBuffer (feed e base xs s) = textBuffer s"
  by (induction e base xs s rule: feed.induct) simp_all

lemma feed_buffer:
  "feed e base xs (s\<lparr>textBuffer := b\<rparr>) = (feed e base xs s)\<lparr>textBuffer := b\<rparr>"
proof (induction e base xs s rule: feed.induct)
  case (1 e base s)
  then show ?case by simp
next
  case (2 e base xs s)
  then show ?case by simp
next
  case (3 e base d xs s)
  let ?s' = "s\<lparr>assistantSoFar := assistantSoFar s @ d,
                messages := base @ [aiTurn e (assistantSoFar s @ d)]\<rparr>"
  let ?sb = "s\<lparr>textBuffer := b\<rparr>"
  have eq: "?sb\<lparr>assistantSoFar := assistantSoFar ?sb @ d,
                 messages := base @ [aiTurn e (assistantSoFar ?sb @ d)]\<rparr>
            = ?s'\<lparr>textBuffer := b\<rparr>"
    by simp
  have "feed e base (Some d # xs) ?sb
        = feed e base xs (?sb\<lparr>assistantSoFar := assistantSoFar ?sb @ d,
                              messages := base @ [aiTurn e (assistantSoFar ?sb @ d)]\<rparr>)"
    by (simp only: feed.simps)
  also have "\<dots> = feed e base xs (?s'\<lparr>textBuffer := b\<rparr>)"
    by (simp only: eq)
  also have "\<dots> = (feed e base xs ?s')\<lparr>textBuffer := b\<rparr>"
    by (rule "3.IH")
  finally show ?case
    by (simp only: feed.simps)
qed

lemma deltas_simps [simp]:
  "deltas [] = []"
  "deltas (None # xs) = deltas xs"
  "deltas (Some d # xs) = d # deltas xs"
  by (simp_all add: deltas_def)

lemma feed_messages:
  "messages (feed e base xs s)
   = (if deltas xs = [] then messages s
      else base @ [aiTurn e (assistantSoFar s @ concat (deltas xs))])"
  by (induction e base xs s rule: feed.induct) simp_all

lemma effect_lines:
  assumes "base \<noteq> []" and "role (last base) = User"
  shows "list_all2 (\<lambda>l x. 10 \<notin> set l \<and> lineEffect e (stripCR l) = Some x) ls xs \<Longrightarrow>
         opened e base s \<Longrightarrow>
         drain e (s\<lparr>textBuffer := linesText ls @ rest\<rparr>)
           = drain e ((feed e base xs s)\<lparr>textBuffer := rest\<rparr>)
         \<and> quiet e (s\<lparr>textBuffer := linesText ls @ rest\<rparr>)
           = quiet e ((feed e base xs s)\<lparr>textBuffer := rest\<rparr>)"
proof (induction ls xs arbitrary: s rule: list_all2_induct)
  case Nil
  then show ?case by (simp add: linesText_def)
next
  case (Cons l ls x xs)
  let ?s' = "feed e base [x] s"
  let ?t = "linesText ls @ rest"
  have nl: "nextLine (textBuffer (s\<lparr>textBuffer := linesText (l # ls) @ rest\<rparr>))
            = Some (stripCR l, ?t)"
    using Cons.hyps(1) nextLine_line [of l ?t] by (simp add: linesText_def)
  have o: "opened e base (s\<lparr>textBuffer := ?t\<rparr>)"
    using Cons.prems by simp
  have pl: "processLine e (stripCR l)
              (s\<lparr>textBuffer := linesText (l # ls) @ rest\<rparr>\<lparr>textBuffer := ?t\<rparr>)
            = Continue (?s'\<lparr>textBuffer := ?t\<rparr>)"
    using processLine_effect [OF assms o, of "stripCR l" x] Cons.hyps(1)
    by (simp add: feed_buffer)
  have o': "opened e base ?s'"
    using Cons.prems by (cases x) (simp_all add: opened_def)
  have f: "feed e base (x # xs) s = feed e base xs ?s'"
    by (cases x) simp_all
  have "drain e (s\<lparr>textBuffer := linesText (l # ls) @ rest\<rparr>) = drain e (?s'\<lparr>textBuffer := ?t\<rparr>)"
    by (rule drain_Continue [OF nl pl])
  moreover have "quiet e (s\<lparr>textBuffer := linesText (l # ls) @ rest\<rparr>)
                 = quiet e (?s'\<lparr>textBuffer := ?t\<rparr>)"
    by (rule quiet_Continue [OF nl pl])
  ultimately show ?case
    using Cons.IH [OF o'] f by simp
qed

lemma drain_doneLine: "drain e (s\<lparr>textBuffer := doneLine @ [10]\<rparr>) = s\<lparr>textBuffer := []\<rparr>"
proof -
  have n: "10 \<notin> set doneLine"
    by (simp add: doneLine_def jstr_def)
  have c: "stripCR doneLine = doneLine"
    by (simp add: doneLine_def jstr_def stripCR_def endsWith_def)
  have nl: "nextLine (textBuffer (s\<lparr>textBuffer := doneLine @ [10]\<rparr>)) = Some (doneLine, [])"
    using nextLine_line [OF n, of "[]"] c by simp
  have d: "dataLine doneLine = Some (jstr ''[DONE]'')"
    by (simp add: doneLine_def jstr_def dataLine_def startsWith_def trim_def isWhiteSpace_def)
  have pl: "processLine e doneLine (s\<lparr>textBuffer := doneLine @ [10]\<rparr>\<lparr>textBuffer := []\<rparr>)
            = Break (s\<lparr>textBuffer := []\<rparr>)"
    using d by (simp add: processLine_def)
  show ?thesis
    by (rule drain_Break [OF nl pl])
qed

lemma quiet_no_newline: "10 \<notin> set b \<Longrightarrow> quiet e (s\<lparr>textBuffer := b\<rparr>)"
  by (simp add: quiet_None nextLine_None)

lemma drain_no_newline: "10 \<notin> set b \<Longrightarrow> drain e (s\<lparr>textBuffer := b\<rparr>) = s\<lparr>textBuffer := b\<rparr>"
  by (simp add: drain_None nextLine_None)

lemma effect_stream:
  assumes base: "base \<noteq> []" "role (last base) = User" and o: "opened e base s"
    and l: "list_all2 (\<lambda>l x. 10 \<notin> set l \<and> lineEffect e (stripCR l) = Some x) ls xs"
    and fin: "fin = [] \<or> fin = doneLine @ [10]"
    and cs: "concat cs = linesText ls @ fin"
  shows "pump e (map Chunk cs) (s\<lparr>textBuffer := []\<rparr>)
         = Returned ((feed e base xs s)\<lparr>textBuffer := []\<rparr>)"
proof -
  let ?T = "linesText ls @ fin"
  let ?F = "feed e base xs s"
  have n: "10 \<notin> set doneLine"
    by (simp add: doneLine_def jstr_def)
  have d: "drain e (s\<lparr>textBuffer := ?T\<rparr>) = ?F\<lparr>textBuffer := []\<rparr>"
    using fin effect_lines [OF base l o, of fin] drain_doneLine [of e ?F]
      drain_no_newline [of "[]" e ?F]
    by auto
  have "quiet e (s\<lparr>textBuffer := butlast ?T\<rparr>)"
  proof (cases "fin = []")
    case True
    have "quiet e (s\<lparr>textBuffer := ?T\<rparr>)"
      using True effect_lines [OF base l o, of "[]"] quiet_no_newline [of "[]" e ?F] by simp
    moreover have "?T = butlast ?T @ (if ?T = [] then [] else [last ?T])"
      by simp
    ultimately have "quiet e (s\<lparr>textBuffer := butlast ?T\<rparr>\<lparr>textBuffer :=
        textBuffer (s\<lparr>textBuffer := butlast ?T\<rparr>) @ (if ?T = [] then [] else [last ?T])\<rparr>)"
      by simp
    then show ?thesis
      by (rule quiet_prefix)
  next
    case False
    then have "butlast ?T = linesText ls @ doneLine"
      using fin by (simp add: butlast_append)
    then show ?thesis
      using effect_lines [OF base l o, of doneLine] quiet_no_newline [OF n, of e ?F] by simp
  qed
  moreover have "10 \<notin> set (textBuffer (drain e (s\<lparr>textBuffer := ?T\<rparr>)))"
    using d by simp
  moreover have "\<exists>y. concat cs @ y = ?T"
    using cs by simp
  ultimately have "pump e (map Chunk cs) (s\<lparr>textBuffer := []\<rparr>)
                   = Returned (drain e (s\<lparr>textBuffer := concat cs\<rparr>))"
    by (rule pump_prefix)
  then show ?thesis
    using d cs by simp
qed

section \<open>What every step of a send preserves\<close>

text \<open>
  A property of the state that the \<open>try\<close> block preserves and that does not depend on
  \<open>textBuffer\<close> holds after the inner loop, after the outer loop and after the outer
  \<open>try\<close> block, however they end.
\<close>

lemma processLine_invariant:
  assumes step: "\<forall>j s s'. P s \<longrightarrow> tryBlock e j s = Some s' \<longrightarrow> P s'"
    and buf: "\<forall>s b. P (s\<lparr>textBuffer := b\<rparr>) = P s"
    and "P s"
  shows "case processLine e line s of Continue s' \<Rightarrow> P s' | Break s' \<Rightarrow> P s'"
  using assms(3) step buf by (auto simp: processLine_def split: option.splits)

lemma drain_invariant:
  "\<forall>j s s'. P s \<longrightarrow> tryBlock e j s = Some s' \<longrightarrow> P s' \<Longrightarrow>
   \<forall>s b. P (s\<lparr>textBuffer := b\<rparr>) = P s \<Longrightarrow> P s \<Longrightarrow> P (drain e s)"
proof (induction e s rule: drain.induct)
  case (1 e s)
  note step = "1.prems"(1) and buf = "1.prems"(2)
  show ?case
  proof (cases "nextLine (textBuffer s)")
    case None
    then show ?thesis using "1.prems"(3) by (simp add: drain_None)
  next
    case (Some p)
    obtain line rest where p: "p = (line, rest)" by (cases p)
    with Some have nl: "nextLine (textBuffer s) = Some (line, rest)" by simp
    have o: "P (s\<lparr>textBuffer := rest\<rparr>)"
      using "1.prems"(3) buf by simp
    show ?thesis
    proof (cases "processLine e line (s\<lparr>textBuffer := rest\<rparr>)")
      case (Continue s')
      have "P s'"
        using processLine_invariant [where P = P and e = e and line = line, OF step buf o]
          Continue
        by simp
      then have "P (drain e s')"
        using "1.IH" [OF Some p [symmetric] Continue step buf] by simp
      then show ?thesis
        using drain_Continue [OF nl Continue] by simp
    next
      case (Break s')
      have "P s'"
        using processLine_invariant [where P = P and e = e and line = line, OF step buf o]
          Break
        by simp
      then show ?thesis
        using drain_Break [OF nl Break] by simp
    qed
  qed
qed

lemma pump_invariant:
  assumes step: "\<forall>j s s'. P s \<longrightarrow> tryBlock e j s = Some s' \<longrightarrow> P s'"
    and buf: "\<forall>s b. P (s\<lparr>textBuffer := b\<rparr>) = P s"
  shows "P s \<Longrightarrow> (case pump e rs s of Returned s' \<Rightarrow> P s' | Threw m s' \<Rightarrow> P s')"
proof (induction rs arbitrary: s)
  case Nil
  then show ?case by simp
next
  case (Cons r rs)
  show ?case
  proof (cases r)
    case (Chunk v)
    have "P (s\<lparr>textBuffer := textBuffer s @ v\<rparr>)"
      using Cons.prems buf by simp
    then have "P (drain e (s\<lparr>textBuffer := textBuffer s @ v\<rparr>))"
      by (rule drain_invariant [where P = P and e = e, OF step buf])
    then show ?thesis
      using Cons.IH Chunk by simp
  next
    case (ReadFailure m)
    then show ?thesis using Cons.prems by simp
  qed
qed

lemma tryBody_invariant:
  assumes step: "\<forall>j s s'. P s \<longrightarrow> tryBlock e j s = Some s' \<longrightarrow> P s'"
    and buf: "\<forall>s b. P (s\<lparr>textBuffer := b\<rparr>) = P s"
    and "P s"
  shows "case tryBody e f s of Returned s' \<Rightarrow> P s' | Threw m s' \<Rightarrow> P s'"
proof (cases f)
  case (FetchFailure m)
  then show ?thesis using assms(3) by (simp add: tryBody_def)
next
  case (Response r)
  have "P (s\<lparr>textBuffer := []\<rparr>)"
    using assms(3) buf by simp
  from pump_invariant [where P = P and e = e, OF step buf this] show ?thesis
    using Response assms(3) by (auto simp: tryBody_def split: option.splits)
qed

lemma tracked_opened: "tracked e base s \<Longrightarrow> opened e base s"
  by (auto simp: tracked_def opened_def)

lemma tracked_step:
  assumes "base \<noteq> []" and "role (last base) = User" and "tracked e base s"
    and "tryBlock e j s = Some s'"
  shows "tracked e base s'"
  using assms(4) assms(3) reconcile_opened [OF assms(1,2) tracked_opened [OF assms(3)]]
  by (auto simp: tryBlock_def tracked_def split: option.splits if_splits)

lemma take_prefix_append:
  assumes "take (length d) a = d"
  shows "take (length d) (a @ t) = d"
proof -
  have "length (take (length d) a) = length d"
    using assms by simp
  then have "length d \<le> length a"
    by simp
  then show ?thesis
    using assms by simp
qed

lemma present_step:
  assumes "present e base d s" and "tryBlock e j s = Some s'"
  shows "present e base d s'"
proof -
  have m: "messages s = base @ [aiTurn e (assistantSoFar s)]"
    and p: "take (length d) (assistantSoFar s) = d"
    using assms(1) by (simp_all add: present_def)
  have r: "reconcile e t (messages s) = base @ [aiTurn e t]" for t
    using reconcile_extends [of e t base "assistantSoFar s"] m by simp
  show ?thesis
    using assms(2) m p r take_prefix_append [OF p]
    by (auto simp: tryBlock_def present_def split: option.splits if_splits)
qed


lemma tracked_invariant:
  assumes "base \<noteq> []" and "role (last base) = User"
  shows "\<forall>j s s'. tracked e base s \<longrightarrow> tryBlock e j s = Some s' \<longrightarrow> tracked e base s'"
    and "\<forall>s b. tracked e base (s\<lparr>textBuffer := b\<rparr>) = tracked e base s"
proof -
  show "\<forall>j s s'. tracked e base s \<longrightarrow> tryBlock e j s = Some s' \<longrightarrow> tracked e base s'"
  proof (intro allI impI)
    fix j s s'
    assume "tracked e base s" and "tryBlock e j s = Some s'"
    then show "tracked e base s'"
      by (rule tracked_step [OF assms])
  qed
  show "\<forall>s b. tracked e base (s\<lparr>textBuffer := b\<rparr>) = tracked e base s"
    by (simp add: tracked_def)
qed

lemma present_invariant:
  shows "\<forall>j s s'. present e base d s \<longrightarrow> tryBlock e j s = Some s' \<longrightarrow> present e base d s'"
    and "\<forall>s b. present e base d (s\<lparr>textBuffer := b\<rparr>) = present e base d s"
proof -
  show "\<forall>j s s'. present e base d s \<longrightarrow> tryBlock e j s = Some s' \<longrightarrow> present e base d s'"
  proof (intro allI impI)
    fix j s s'
    assume "present e base d s" and "tryBlock e j s = Some s'"
    then show "present e base d s'"
      by (rule present_step)
  qed
  show "\<forall>s b. present e base d (s\<lparr>textBuffer := b\<rparr>) = present e base d s"
    by (simp add: present_def)
qed

section \<open>Identifiers\<close>

text \<open>
  The decimal digits determine the number, so two clock readings give the same
  identifier only when they are equal; and an identifier that starts with \<open>ai-\<close> is
  never the bare reading of a user's message.
\<close>

lemma digitsValue_digitsOf: "digitsValue (digitsOf n) = n"
proof (induction n rule: digitsOf.induct)
  case (1 n)
  show ?case
  proof (cases "n < 10")
    case True
    then show ?thesis by (simp add: digitsOf.simps [of n])
  next
    case False
    then have "digitsValue (digitsOf (n div 10)) = n div 10"
      using "1.IH" by simp
    then show ?thesis
      using False by (simp add: digitsOf.simps [of n])
  qed
qed

lemma digitsOf_inj: "digitsOf m = digitsOf n \<Longrightarrow> m = n"
  by (metis digitsValue_digitsOf)

lemma digitsOf_digits: "c \<in> set (digitsOf n) \<Longrightarrow> 48 \<le> c \<and> c \<le> 57"
proof (induction n rule: digitsOf.induct)
  case (1 n)
  show ?case
  proof (cases "n < 10")
    case True
    then show ?thesis using "1.prems" by (simp add: digitsOf.simps [of n])
  next
    case False
    then show ?thesis
      using "1.prems" "1.IH" by (auto simp: digitsOf.simps [of n])
  qed
qed

lemma jstr_ai: "jstr ''ai-'' = [97, 105, 45]"
  by (simp add: jstr_def)

lemma ai_id_not_digits: "jstr ''ai-'' @ x \<noteq> digitsOf n"
proof
  assume a: "jstr ''ai-'' @ x = digitsOf n"
  have "97 \<in> set (jstr ''ai-'' @ x)"
    by (simp add: jstr_ai)
  then have "97 \<in> set (digitsOf n)"
    by (simp only: a)
  then have "48 \<le> (97::nat) \<and> (97::nat) \<le> 57"
    by (rule digitsOf_digits)
  then show False by simp
qed


lemma new_id_is_new:
  assumes "\<forall>m \<in> set ms. startsWith (id' m) (jstr ''ai-'')
             \<longrightarrow> (\<exists>n. id' m = jstr ''ai-'' @ digitsOf n \<and> n \<noteq> k)"
  shows "\<forall>m \<in> set (ms @ [\<lparr>id' = digitsOf u, role = User, content = c\<rparr>]).
           id' m \<noteq> jstr ''ai-'' @ digitsOf k"
proof
  fix m
  assume m: "m \<in> set (ms @ [\<lparr>id' = digitsOf u, role = User, content = c\<rparr>])"
  show "id' m \<noteq> jstr ''ai-'' @ digitsOf k"
  proof
    assume eq: "id' m = jstr ''ai-'' @ digitsOf k"
    show False
    proof (cases "m \<in> set ms")
      case True
      have "startsWith (id' m) (jstr ''ai-'')"
        unfolding eq by (simp add: startsWith_def)
      with assms True obtain n where n1: "id' m = jstr ''ai-'' @ digitsOf n" and n2: "n \<noteq> k"
        by blast
      from n1 have "jstr ''ai-'' @ digitsOf n = jstr ''ai-'' @ digitsOf k"
        unfolding eq by (rule sym)
      then have "digitsOf n = digitsOf k"
        by (simp only: same_append_eq)
      then have "n = k" by (rule digitsOf_inj)
      with n2 show False by simp
    next
      case False
      with m have "m = \<lparr>id' = digitsOf u, role = User, content = c\<rparr>"
        by simp
      then have "id' m = digitsOf u"
        by simp
      then have "jstr ''ai-'' @ digitsOf k = digitsOf u"
        unfolding eq .
      then show False
        using ai_id_not_digits [of "digitsOf k" u] by (simp only:)
    qed
  qed
qed

section \<open>The event decoder\<close>

text \<open>
  C6, as the code has it. A line is a data line exactly when it starts with the six
  characters \<open>data: \<close>, the space included; its payload is what follows these six
  characters, with the white space around it trimmed. Every other line, a line
  \<open>data:<payload>\<close> without the space among them, is skipped.
\<close>

theorem dataLine_needs_space:
  "dataLine line =
     (if startsWith line (jstr ''data: '') then Some (trim (drop 6 line)) else None)"
proof (cases "startsWith line (jstr ''data: '')")
  case True
  then obtain t where l: "line = [100, 97, 116, 97, 58, 32] @ t"
    unfolding jstr_data_prefix startsWith_append by blast
  have "\<not> startsWith line (jstr '':'')"
    by (simp add: l jstr_colon startsWith_def)
  moreover have "trim line \<noteq> []"
    by (simp add: trim_eq_Nil l isWhiteSpace_def)
  ultimately show ?thesis
    using True by (simp add: dataLine_def)
next
  case False
  then show ?thesis by (simp add: dataLine_def)
qed

theorem dataLine_needs_space_witness:
  "startsWith (jstr ''data: [DONE]'') (jstr ''data: '')
   \<and> dataLine (jstr ''data: [DONE]'') = Some (jstr ''[DONE]'')"
  using dataLine_needs_space [of "jstr ''data: [DONE]''"]
  by (simp add: jstr_def startsWith_def trim_def isWhiteSpace_def)

text \<open>
  The claim C6 as the specification states it fails: the line
  \<open>data:{"choices":[{"delta":{"content":"X"}}]}\<close>, with no space after the colon, is
  not taken as a data line, and the loop body leaves the state as it is.
\<close>

theorem data_without_space_counterexample:
  "dataLine (jstr ''data:{\"choices\":[{\"delta\":{\"content\":\"X\"}}]}'') = None
   \<and> processLine exampleEnv (jstr ''data:{\"choices\":[{\"delta\":{\"content\":\"X\"}}]}'')
         exampleState = Continue exampleState"
  by (simp add: line_eval)

section \<open>Lines that carry nothing\<close>

text \<open>
  C8. A comment line (one that starts with \<open>:\<close>) and a blank line (empty after
  \<open>trim\<close>) leave the whole state as it is, the transcript \<open>messages\<close> included, and the
  loop goes on to the next line.
\<close>

theorem comment_or_blank_line_changes_nothing:
  assumes "startsWith line (jstr '':'') \<or> trim line = []"
  shows "processLine e line s = Continue s"
  using assms by (auto simp: processLine_def dataLine_def)

theorem comment_or_blank_line_changes_nothing_witness:
  "(startsWith (jstr '':keep-alive'') (jstr '':'') \<or> trim (jstr '':keep-alive'') = [])
   \<and> processLine exampleEnv (jstr '':keep-alive'') exampleState = Continue exampleState"
proof -
  have h: "startsWith (jstr '':keep-alive'') (jstr '':'') \<or> trim (jstr '':keep-alive'') = []"
    by (simp add: jstr_def startsWith_def)
  show ?thesis
    using h comment_or_blank_line_changes_nothing [OF h, of exampleEnv exampleState] by simp
qed

text \<open>
  Seen from the buffer: a comment or blank line at the front of \<open>textBuffer\<close>, with or
  without a carriage return before its newline, is consumed and nothing else happens.
\<close>

lemma stripCR_comment_or_blank:
  assumes "startsWith l (jstr '':'') \<or> trim l = []"
  shows "startsWith (stripCR l) (jstr '':'') \<or> trim (stripCR l) = []"
proof (cases "trim l = []")
  case True
  then have "trim (stripCR l) = []"
    by (auto simp: trim_eq_Nil stripCR_def dest: in_set_butlastD)
  then show ?thesis by simp
next
  case False
  with assms obtain t where l: "l = 58 # t"
    by (auto simp: jstr_colon startsWith_append)
  have "startsWith (stripCR l) (jstr '':'')"
    by (cases t) (simp_all add: l jstr_colon startsWith_def stripCR_def endsWith_def)
  then show ?thesis by simp
qed

lemma drain_comment_or_blank:
  assumes "10 \<notin> set l" and "startsWith l (jstr '':'') \<or> trim l = []"
  shows "drain e (s\<lparr>textBuffer := l @ 10 # rest\<rparr>) = drain e (s\<lparr>textBuffer := rest\<rparr>)"
proof -
  have nl: "nextLine (textBuffer (s\<lparr>textBuffer := l @ 10 # rest\<rparr>)) = Some (stripCR l, rest)"
    using nextLine_line [OF assms(1)] by simp
  have "processLine e (stripCR l) (s\<lparr>textBuffer := l @ 10 # rest\<rparr>\<lparr>textBuffer := rest\<rparr>)
        = Continue (s\<lparr>textBuffer := rest\<rparr>)"
    using stripCR_comment_or_blank [OF assms(2)] by (auto simp: processLine_def dataLine_def)
  with nl show ?thesis
    by (rule drain_Continue)
qed

text \<open>
  C10. When the payload of a data line parses and \<open>choices[0].delta.content\<close> is
  absent (\<open>undefined\<close>), \<open>null\<close> or the empty string, the loop body changes nothing:
  no turn is opened, and \<open>assistantSoFar\<close> and the transcript stay as they are.
\<close>

theorem empty_content_changes_nothing:
  assumes "dataLine line = Some jsonStr"
    and "JSON_parse jsonStr = Some parsed"
    and "deltaContent parsed = Some c"
    and "c = None \<or> c = Some JNull \<or> c = Some (JStr [])"
  shows "processLine e line s = Continue s"
proof -
  have "jsonStr \<noteq> jstr ''[DONE]''"
    using assms(2) JSON_parse_DONE by auto
  moreover have "\<not> truthy e c"
    using assms(4) by auto
  ultimately show ?thesis
    using assms(1-3) by (simp add: processLine_def tryBlock_def)
qed

theorem empty_content_changes_nothing_witness:
  "dataLine (jstr ''data: {\"choices\":[{\"delta\":{\"content\":\"\"}}]}'')
     = Some (jstr ''{\"choices\":[{\"delta\":{\"content\":\"\"}}]}'')
   \<and> JSON_parse (jstr ''{\"choices\":[{\"delta\":{\"content\":\"\"}}]}'')
     = Some (JObj [(jstr ''choices'',
          JArr [JObj [(jstr ''delta'', JObj [(jstr ''content'', JStr [])])]])])
   \<and> deltaContent (JObj [(jstr ''choices'',
          JArr [JObj [(jstr ''delta'', JObj [(jstr ''content'', JStr [])])]])])
     = Some (Some (JStr []))
   \<and> processLine exampleEnv (jstr ''data: {\"choices\":[{\"delta\":{\"content\":\"\"}}]}'')
       exampleState = Continue exampleState"
proof -
  let ?line = "jstr ''data: {\"choices\":[{\"delta\":{\"content\":\"\"}}]}''"
  let ?payload = "jstr ''{\"choices\":[{\"delta\":{\"content\":\"\"}}]}''"
  let ?parsed = "JObj [(jstr ''choices'',
          JArr [JObj [(jstr ''delta'', JObj [(jstr ''content'', JStr [])])]])]"
  have a: "dataLine ?line = Some ?payload"
    by (simp add: jstr_def dataLine_def startsWith_def trim_def isWhiteSpace_def)
  have b: "JSON_parse ?payload = Some ?parsed"
    by (simp add: jstr_def json_eval)
  have c: "deltaContent ?parsed = Some (Some (JStr []))"
    by (simp add: jstr_def deltaContent_def optChain_def)
  have d: "Some (JStr []) = None \<or> Some (JStr []) = Some JNull
           \<or> Some (JStr []) = Some (JStr [])"
    by simp
  show ?thesis
    using a b c empty_content_changes_nothing [OF a b c d, of exampleEnv exampleState]
    by simp
qed

text \<open>
  A payload \<open>null\<close> parses, but reading \<open>choices\<close> of it throws. The \<open>catch\<close> then
  puts the line back and leaves the loop; the transcript is unchanged here too.
\<close>

lemma null_payload_keeps_transcript:
  assumes "dataLine line = Some jsonStr" and "JSON_parse jsonStr = Some JNull"
  shows "processLine e line s = Break (s\<lparr>textBuffer := line @ [10] @ textBuffer s\<rparr>)"
proof -
  have "jsonStr \<noteq> jstr ''[DONE]''"
    using assms(2) JSON_parse_DONE by auto
  then show ?thesis
    using assms by (simp add: processLine_def tryBlock_def deltaContent_def)
qed

section \<open>The sentinel\<close>

text \<open>
  C3 on the code. The \<open>break\<close> taken at \<open>[DONE]\<close> leaves the inner loop only, and the
  outer loop goes on reading. Here the first chunk holds the sentinel line and, after
  it, a complete data line; the second chunk is a single newline. When the second
  chunk arrives, the line buffered after the sentinel is decoded and its delta \<open>X\<close>
  is reconciled into the transcript. The same happens when the data line itself
  arrives in a chunk after the sentinel.
\<close>

theorem sentinel_does_not_end_the_session:
  "messages (handleSend exampleEnv
       (streaming [Chunk (doneLine @ [10] @ deltaX @ [10]), Chunk [10]]) exampleState)
     = [greeting, userTurn, aiTurn exampleEnv (jstr ''X'')]
   \<and> messages (handleSend exampleEnv
       (streaming [Chunk (doneLine @ [10]), Chunk (deltaX @ [10])]) exampleState)
     = [greeting, userTurn, aiTurn exampleEnv (jstr ''X'')]"
  by (simp add: send_eval example_eval drain.simps line_eval json_eval)

text \<open>
  C2 on the code. The same text, a sentinel line followed by a data line, gives two
  transcripts: delivered as one chunk, the data line after the sentinel is never
  decoded; delivered as two chunks, it opens an assistant turn.
\<close>

theorem chunking_changes_the_transcript:
  "[doneLine @ [10] @ deltaX @ [10]] \<noteq> [doneLine @ [10], deltaX @ [10]]
   \<and> concat [doneLine @ [10] @ deltaX @ [10]] = concat [doneLine @ [10], deltaX @ [10]]
   \<and> messages (handleSend exampleEnv
       (streaming (map Chunk [doneLine @ [10] @ deltaX @ [10]])) exampleState)
     = [greeting, userTurn]
   \<and> messages (handleSend exampleEnv
       (streaming (map Chunk [doneLine @ [10], deltaX @ [10]])) exampleState)
     = [greeting, userTurn, aiTurn exampleEnv (jstr ''X'')]"
  by (simp add: send_eval example_eval drain.simps line_eval json_eval)

section \<open>A payload that does not parse\<close>

text \<open>
  C4 on the code. A data line is cut by a newline inside its JSON object; joined, the
  two halves parse and carry the delta \<open>Hi\<close>. The \<open>catch\<close> puts the first half back
  followed by a newline, so the next decode attempt meets the same first half alone
  and fails again: the object is never put together, \<open>Hi\<close> is never extracted, and the
  well-formed line that follows is never reached. At the end the whole input is still
  in \<open>textBuffer\<close> and the transcript holds no assistant turn.
\<close>

theorem split_payload_is_never_reassembled:
  "lineEffect exampleEnv (splitHead @ splitTail) = Some (Some (jstr ''Hi''))
   \<and> handleSend exampleEnv
       (streaming [Chunk (splitHead @ [10]), Chunk (splitTail @ [10]), Chunk (deltaX @ [10])])
       exampleState
     = exampleState\<lparr>messages := [greeting, userTurn], input := [],
         textBuffer := splitHead @ [10] @ splitTail @ [10] @ deltaX @ [10]\<rparr>"
  by (simp add: lineEffect_def send_eval example_eval drain.simps line_eval json_eval)

text \<open>
  C7 on the code. The source ends with an unterminated frame in the buffer. The session
  completes (no error turn, \<open>isLoading\<close> false again), but what is lost is more than
  that last frame: the complete, well-formed data line before it, which carries \<open>X\<close>,
  is lost too, because it follows a line whose payload does not parse.
\<close>

theorem loss_is_not_bounded_by_the_last_frame:
  "handleSend exampleEnv
     (streaming [Chunk (brokenLine @ [10]), Chunk (deltaX @ [10]), Chunk partialLine])
     exampleState
   = exampleState\<lparr>messages := [greeting, userTurn], input := [],
       textBuffer := brokenLine @ [10] @ deltaX @ [10] @ partialLine\<rparr>"
  by (simp add: send_eval example_eval drain.simps line_eval json_eval)

section \<open>A response that is not ok\<close>

text \<open>
  C5, as the code has it. When the status is outside 200..299, the send appends the
  user's message and then exactly one error turn, of role assistant, whose content
  embeds the failure message; no turn is opened for streamed text and \<open>isLoading\<close> is
  false again. The failure message is the \<open>error\<close> member of the body when the body is
  a JSON value whose \<open>error\<close> member is a non-empty string. It is \<open>Error\<close> followed by
  the status when the \<open>error\<close> member is absent or falsy (the empty string among the
  falsy values), which covers a body that is not JSON, read as \<open>{}\<close>.
\<close>

theorem response_not_ok:
  assumes "\<not> isLoading s"
    and "trim (input s) \<noteq> [] \<or> attachedFile s \<noteq> None"
    and "\<not> ok r"
  shows "messages (handleSend e (Response r) s)
           = messages s
             @ [\<lparr>id' = digitsOf (nowUser e), role = User, content = displayContent s\<rparr>,
                errorTurn e (errorMessage e r)]
         \<and> \<not> isLoading (handleSend e (Response r) s)
         \<and> (\<forall>m. member (jstr ''error'') (errData r) = Some (JStr m) \<and> m \<noteq> []
                \<longrightarrow> errorMessage e r = m)
         \<and> (errData r \<noteq> JNull \<and> \<not> truthy e (member (jstr ''error'') (errData r))
                \<longrightarrow> errorMessage e r = jstr ''Error '' @ digitsOf (status r))
         \<and> (\<forall>rs t. body r = Some rs \<and> readAll rs = Some t \<and> JSON_parse t = None
                \<longrightarrow> errorMessage e r = jstr ''Error '' @ digitsOf (status r))"
proof -
  have send: "messages (handleSend e (Response r) s)
           = messages s
             @ [\<lparr>id' = digitsOf (nowUser e), role = User, content = displayContent s\<rparr>,
                errorTurn e (errorMessage e r)]"
    using assms by (auto simp: handleSend_def tryBody_def)
  have loading: "\<not> isLoading (handleSend e (Response r) s)"
    using assms by (auto simp: handleSend_def tryBody_def)
  have field: "errorMessage e r = m"
    if "member (jstr ''error'') (errData r) = Some (JStr m)" and "m \<noteq> []" for m
    using that by (cases "errData r") (auto simp: errorMessage_def)
  have fallback: "errorMessage e r = jstr ''Error '' @ digitsOf (status r)"
    if "errData r \<noteq> JNull" and "\<not> truthy e (member (jstr ''error'') (errData r))"
    using that by (simp add: errorMessage_def)
  have unparsed: "errorMessage e r = jstr ''Error '' @ digitsOf (status r)"
    if "body r = Some rs" and "readAll rs = Some t" and "JSON_parse t = None" for rs t
    using that by (simp add: errorMessage_def errData_def)
  show ?thesis
    using send loading field fallback unparsed by blast
qed

theorem response_not_ok_witness:
  "\<not> isLoading exampleState
   \<and> trim (input exampleState) \<noteq> []
   \<and> \<not> ok \<lparr>status = 500, body = Some [Chunk (jstr ''{\"error\":\"rate limited\"}'')]\<rparr>
   \<and> member (jstr ''error'')
        (errData \<lparr>status = 500, body = Some [Chunk (jstr ''{\"error\":\"rate limited\"}'')]\<rparr>)
      = Some (JStr (jstr ''rate limited''))
   \<and> errorMessage exampleEnv
        \<lparr>status = 500, body = Some [Chunk (jstr ''{\"error\":\"rate limited\"}'')]\<rparr>
      = jstr ''rate limited''
   \<and> messages (handleSend exampleEnv (failing 500 (jstr ''{\"error\":\"rate limited\"}''))
        exampleState)
      = [greeting, userTurn, errorTurn exampleEnv (jstr ''rate limited'')]"
proof -
  let ?r = "\<lparr>status = 500, body = Some [Chunk (jstr ''{\"error\":\"rate limited\"}'')]\<rparr>"
  have a: "\<not> isLoading exampleState"
    by (simp add: exampleState_def)
  have b0: "trim (input exampleState) \<noteq> []"
    by (simp add: exampleState_def jstr_def trim_def isWhiteSpace_def)
  then have b: "trim (input exampleState) \<noteq> [] \<or> attachedFile exampleState \<noteq> None"
    by simp
  have c: "\<not> ok ?r"
    by (simp add: ok_def)
  have d: "member (jstr ''error'') (errData ?r) = Some (JStr (jstr ''rate limited''))"
    by (simp add: errData_def jstr_def json_eval)
  have f: "failing 500 (jstr ''{\"error\":\"rate limited\"}'') = Response ?r"
    by (simp add: failing_def)
  have g: "[greeting, userTurn]
           = messages exampleState
             @ [\<lparr>id' = digitsOf (nowUser exampleEnv), role = User,
                 content = displayContent exampleState\<rparr>]"
    by (simp add: send_eval example_eval jstr_def trim_def isWhiteSpace_def)
  have h: "jstr ''rate limited'' \<noteq> []"
    by (simp add: jstr_def)
  show ?thesis
    using a b0 c d f g h response_not_ok [OF a b c, of exampleEnv] by simp
qed

text \<open>
  The claim C5 as the specification states it fails twice. A body \<open>{"error":""}\<close> is
  JSON and contains an \<open>error\<close> member, yet the message is \<open>Error 500\<close>, not that
  member. And for the body \<open>{"error":"rate limited"}\<close> of the specification's example a
  new turn of role assistant is appended to the transcript: the error turn.
\<close>

theorem response_not_ok_counterexample:
  "member (jstr ''error'') (errData \<lparr>status = 500, body = Some [Chunk (jstr ''{\"error\":\"\"}'')]\<rparr>)
     = Some (JStr [])
   \<and> errorMessage exampleEnv \<lparr>status = 500, body = Some [Chunk (jstr ''{\"error\":\"\"}'')]\<rparr>
     = jstr ''Error 500''
   \<and> messages (handleSend exampleEnv (failing 500 (jstr ''{\"error\":\"rate limited\"}''))
        exampleState)
     = [greeting, userTurn,
        \<lparr>id' = jstr ''err-3000'', role = Assistant,
         content = jstr ''Sorry, I encountered an error: rate limited. Please try again.''\<rparr>]"
  by (simp add: send_eval example_eval line_eval json_eval)

section \<open>Deltas and turns\<close>

text \<open>
  C9, as the code has it. A send never touches the turns that were in the transcript
  before it. It appends the user's message, after it at most one assistant turn for
  the streamed text, and at most one error turn; when any text has been streamed, that
  turn is there and holds all of it. Whatever the transcript was before, the first
  line that carries a delta opens the turn at the end, right after the user's message,
  and what follows stays in that turn. The identifier of the turn is \<open>ai-\<close> followed
  by the clock reading taken when it is opened: it differs from every identifier
  already in the transcript provided that reading differs from the readings of the
  earlier \<open>ai-\<close> turns, and it never equals the identifier of an error turn.
\<close>

theorem send_opens_its_own_turn:
  assumes "\<not> isLoading s" and "trim (input s) \<noteq> [] \<or> attachedFile s \<noteq> None"
  shows "(\<exists>ai err. messages (handleSend e f s)
             = messages s
               @ [\<lparr>id' = digitsOf (nowUser e), role = User, content = displayContent s\<rparr>]
               @ ai @ err
           \<and> (ai = [] \<or> ai = [aiTurn e (assistantSoFar (handleSend e f s))])
           \<and> (assistantSoFar (handleSend e f s) \<noteq> [] \<longrightarrow> ai \<noteq> [])
           \<and> (err = [] \<or> (\<exists>m. err = [errorTurn e m])))
         \<and> (\<forall>t. reconcile e t
                  (messages s
                   @ [\<lparr>id' = digitsOf (nowUser e), role = User, content = displayContent s\<rparr>])
                = messages s
                  @ [\<lparr>id' = digitsOf (nowUser e), role = User, content = displayContent s\<rparr>,
                     aiTurn e t])
         \<and> (\<forall>l d rs. 10 \<notin> set l \<and> lineEffect e (stripCR l) = Some (Some d) \<longrightarrow>
                (\<exists>more err. messages (handleSend e (streaming (Chunk (l @ [10]) # rs)) s)
                    = messages s
                      @ [\<lparr>id' = digitsOf (nowUser e), role = User,
                          content = displayContent s\<rparr>,
                         aiTurn e (d @ more)]
                      @ err
                  \<and> (err = [] \<or> (\<exists>m. err = [errorTurn e m]))))
         \<and> ((\<forall>m \<in> set (messages s). startsWith (id' m) (jstr ''ai-'')
                 \<longrightarrow> (\<exists>n. id' m = jstr ''ai-'' @ digitsOf n \<and> n \<noteq> nowAi e))
              \<longrightarrow> (\<forall>m \<in> set (messages s
                          @ [\<lparr>id' = digitsOf (nowUser e), role = User,
                              content = displayContent s\<rparr>]).
                     id' m \<noteq> id' (aiTurn e c)))
         \<and> id' (errorTurn e x) \<noteq> id' (aiTurn e c)"
proof -
  let ?user = "\<lparr>id' = digitsOf (nowUser e), role = User, content = displayContent s\<rparr>"
  let ?base = "messages s @ [?user]"
  let ?s1 = "s\<lparr>messages := ?base, input := [], attachedFile := None, isLoading := True,
                assistantSoFar := []\<rparr>"
  have b1: "?base \<noteq> []" and b2: "role (last ?base) = User"
    by simp_all
  have hs: "handleSend e f s
            = (case tryBody e f ?s1 of
                 Returned s' \<Rightarrow> s'\<lparr>isLoading := False\<rparr>
               | Threw m s' \<Rightarrow> s'\<lparr>messages := messages s' @ [errorTurn e m], isLoading := False\<rparr>)"
    for f
    using assms by (auto simp: handleSend_def)
  have first: "\<exists>ai err. messages (handleSend e f s) = messages s @ [?user] @ ai @ err
           \<and> (ai = [] \<or> ai = [aiTurn e (assistantSoFar (handleSend e f s))])
           \<and> (assistantSoFar (handleSend e f s) \<noteq> [] \<longrightarrow> ai \<noteq> [])
           \<and> (err = [] \<or> (\<exists>m. err = [errorTurn e m]))"
  proof -
    have t: "tracked e ?base ?s1"
      by (simp add: tracked_def)
    note inv = tryBody_invariant [where P = "tracked e ?base" and e = e and f = f,
        OF tracked_invariant [OF b1 b2] t]
    show ?thesis
    proof (cases "tryBody e f ?s1")
      case (Returned s')
      then have "tracked e ?base s'"
        using inv by simp
      then consider "messages s' = ?base" "assistantSoFar s' = []"
        | "messages s' = ?base @ [aiTurn e (assistantSoFar s')]"
        by (auto simp: tracked_def)
      then show ?thesis
      proof cases
        case 1
        then show ?thesis
          unfolding hs Returned by (rule_tac x = "[]" in exI, rule_tac x = "[]" in exI) simp
      next
        case 2
        then show ?thesis
          unfolding hs Returned
          by (rule_tac x = "[aiTurn e (assistantSoFar s')]" in exI, rule_tac x = "[]" in exI)
            simp
      qed
    next
      case (Threw m s')
      then have "tracked e ?base s'"
        using inv by simp
      then consider "messages s' = ?base" "assistantSoFar s' = []"
        | "messages s' = ?base @ [aiTurn e (assistantSoFar s')]"
        by (auto simp: tracked_def)
      then show ?thesis
      proof cases
        case 1
        then show ?thesis
          unfolding hs Threw
          by (rule_tac x = "[]" in exI, rule_tac x = "[errorTurn e m]" in exI) auto
      next
        case 2
        then show ?thesis
          unfolding hs Threw
          by (rule_tac x = "[aiTurn e (assistantSoFar s')]" in exI,
              rule_tac x = "[errorTurn e m]" in exI) auto
      qed
    qed
  qed
  have second: "\<forall>t. reconcile e t (messages s @ [?user]) = messages s @ [?user, aiTurn e t]"
    using reconcile_opens [OF b1 b2, of e] by simp
  have third: "\<forall>l d rs. 10 \<notin> set l \<and> lineEffect e (stripCR l) = Some (Some d) \<longrightarrow>
                (\<exists>more err. messages (handleSend e (streaming (Chunk (l @ [10]) # rs)) s)
                    = messages s @ [?user, aiTurn e (d @ more)] @ err
                  \<and> (err = [] \<or> (\<exists>m. err = [errorTurn e m])))"
  proof (intro allI impI)
    fix l d rs
    assume ld: "10 \<notin> set l \<and> lineEffect e (stripCR l) = Some (Some d)"
    let ?s2 = "(feed e ?base [Some d] ?s1)\<lparr>textBuffer := []\<rparr>"
    have o: "opened e ?base ?s1"
      by (simp add: opened_def)
    have la: "list_all2 (\<lambda>l x. 10 \<notin> set l \<and> lineEffect e (stripCR l) = Some x) [l] [Some d]"
      using ld by simp
    have "drain e (?s1\<lparr>textBuffer := linesText [l] @ []\<rparr>) = drain e ?s2"
      using effect_lines [OF b1 b2 la o, of "[]"] by simp
    also have "\<dots> = ?s2"
      using drain_no_newline [of "[]" e "feed e ?base [Some d] ?s1"] by simp
    finally have dr: "drain e (?s1\<lparr>textBuffer := l @ [10]\<rparr>) = ?s2"
      by (simp add: linesText_def)
    have p2: "present e ?base d ?s2"
      by (simp add: present_def)
    have tb: "tryBody e (streaming (Chunk (l @ [10]) # rs)) ?s1 = pump e rs ?s2"
      using dr by (simp add: tryBody_def streaming_def ok_def)
    note inv = pump_invariant [where P = "present e ?base d" and e = e and rs = rs,
        OF present_invariant p2]
    have fin: "messages s' = ?base @ [aiTurn e (d @ drop (length d) (assistantSoFar s'))]"
      if "present e ?base d s'" for s'
    proof -
      from that have m: "messages s' = ?base @ [aiTurn e (assistantSoFar s')]"
        and t: "take (length d) (assistantSoFar s') = d"
        by (simp_all add: present_def)
      have "assistantSoFar s' = d @ drop (length d) (assistantSoFar s')"
        using append_take_drop_id [of "length d" "assistantSoFar s'"] t by simp
      with m show ?thesis by simp
    qed
    show "\<exists>more err. messages (handleSend e (streaming (Chunk (l @ [10]) # rs)) s)
                    = messages s @ [?user, aiTurn e (d @ more)] @ err
                  \<and> (err = [] \<or> (\<exists>m. err = [errorTurn e m]))"
    proof (cases "pump e rs ?s2")
      case (Returned s')
      then have "present e ?base d s'" using inv by simp
      then show ?thesis
        unfolding hs tb Returned using fin [of s']
        by (rule_tac x = "drop (length d) (assistantSoFar s')" in exI,
            rule_tac x = "[]" in exI) simp
    next
      case (Threw m s')
      then have "present e ?base d s'" using inv by simp
      then show ?thesis
        unfolding hs tb Threw using fin [of s']
        by (rule_tac x = "drop (length d) (assistantSoFar s')" in exI,
            rule_tac x = "[errorTurn e m]" in exI) auto
    qed
  qed
  have fourth: "(\<forall>m \<in> set (messages s). startsWith (id' m) (jstr ''ai-'')
                 \<longrightarrow> (\<exists>n. id' m = jstr ''ai-'' @ digitsOf n \<and> n \<noteq> nowAi e))
              \<longrightarrow> (\<forall>m \<in> set (messages s @ [?user]). id' m \<noteq> id' (aiTurn e c))"
  proof
    assume h: "\<forall>m \<in> set (messages s). startsWith (id' m) (jstr ''ai-'')
                 \<longrightarrow> (\<exists>n. id' m = jstr ''ai-'' @ digitsOf n \<and> n \<noteq> nowAi e)"
    have eq: "id' (aiTurn e c) = jstr ''ai-'' @ digitsOf (nowAi e)"
      by (simp add: aiTurn_def)
    show "\<forall>m \<in> set (messages s @ [?user]). id' m \<noteq> id' (aiTurn e c)"
      unfolding eq by (rule new_id_is_new [OF h])
  qed
  have fifth: "id' (errorTurn e x) \<noteq> id' (aiTurn e c)"
    by (simp add: errorTurn_def aiTurn_def jstr_def)
  show ?thesis
    by (intro conjI) (rule first, rule second, rule third, rule fourth, rule fifth)
qed

theorem send_opens_its_own_turn_witness:
  "messages (handleSend exampleEnv (streaming [Chunk (deltaX @ [10])]) earlierState)
     = messages earlierState
       @ [userTurn, \<lparr>id' = jstr ''ai-2000'', role = Assistant, content = jstr ''X''\<rparr>]
   \<and> list_all (\<lambda>m. id' m \<noteq> jstr ''ai-2000'') (messages earlierState @ [userTurn])
   \<and> reconcile exampleEnv (jstr ''X'') (messages earlierState @ [userTurn])
     = messages earlierState
       @ [userTurn, \<lparr>id' = jstr ''ai-2000'', role = Assistant, content = jstr ''X''\<rparr>]"
proof -
  have a: "\<not> isLoading earlierState"
    by (simp add: earlierState_def)
  have b: "trim (input earlierState) \<noteq> [] \<or> attachedFile earlierState \<noteq> None"
    by (simp add: earlierState_def jstr_def trim_def isWhiteSpace_def)
  have u: "\<lparr>id' = digitsOf (nowUser exampleEnv), role = User,
             content = displayContent earlierState\<rparr> = userTurn"
    by (simp add: send_eval example_eval jstr_def trim_def isWhiteSpace_def)
  have t: "aiTurn exampleEnv (jstr ''X'')
           = \<lparr>id' = jstr ''ai-2000'', role = Assistant, content = jstr ''X''\<rparr>"
    by (simp add: aiTurn_def exampleEnv_def jstr_def digitsOf.simps)
  have n: "nowAi exampleEnv = 2000"
    by (simp add: exampleEnv_def)
  have old: "jstr ''ai-950'' = jstr ''ai-'' @ digitsOf 950 \<and> (950::nat) \<noteq> 2000"
    by (simp add: jstr_def digitsOf.simps)
  have h: "\<forall>m \<in> set (messages earlierState). startsWith (id' m) (jstr ''ai-'')
             \<longrightarrow> (\<exists>n. id' m = jstr ''ai-'' @ digitsOf n \<and> n \<noteq> nowAi exampleEnv)"
    unfolding n using old
    by (auto simp: earlierState_def greeting_def startsWith_def jstr_def)
  have run: "messages (handleSend exampleEnv (streaming [Chunk (deltaX @ [10])]) earlierState)
     = messages earlierState @ [userTurn, aiTurn exampleEnv (jstr ''X'')]"
    by (simp add: send_eval example_eval drain.simps line_eval json_eval)
  note inst = send_opens_its_own_turn [OF a b, of exampleEnv "streaming [Chunk (deltaX @ [10])]" "jstr ''X''" "[]"]
  from inst have "(\<forall>m \<in> set (messages earlierState). startsWith (id' m) (jstr ''ai-'')
             \<longrightarrow> (\<exists>n. id' m = jstr ''ai-'' @ digitsOf n \<and> n \<noteq> nowAi exampleEnv))
          \<longrightarrow> (\<forall>m \<in> set (messages earlierState @ [userTurn]).
                 id' m \<noteq> id' (aiTurn exampleEnv (jstr ''X'')))"
    unfolding u by (elim conjE)
  with h have fresh: "\<forall>m \<in> set (messages earlierState @ [userTurn]).
                 id' m \<noteq> id' (aiTurn exampleEnv (jstr ''X''))"
    by (rule rev_mp)
  from inst have "\<forall>t. reconcile exampleEnv t (messages earlierState @ [userTurn])
                 = messages earlierState @ [userTurn, aiTurn exampleEnv t]"
    unfolding u by (elim conjE)
  then have rec: "reconcile exampleEnv (jstr ''X'') (messages earlierState @ [userTurn])
                 = messages earlierState @ [userTurn, aiTurn exampleEnv (jstr ''X'')]"
    by (rule spec)
  have ids: "list_all (\<lambda>m. id' m \<noteq> jstr ''ai-2000'') (messages earlierState @ [userTurn])"
    using fresh unfolding t by (simp add: list_all_iff)
  show ?thesis
    using run rec ids unfolding t by (intro conjI)
qed

text \<open>
  The claim C9 as the specification states it fails on the identifier. The code takes
  it from the clock and nothing else makes it new: when the clock gives again the
  reading at which an earlier assistant turn was opened, the turn of this send gets the
  identifier of that earlier turn.
\<close>

theorem same_clock_reading_same_id_counterexample:
  "messages (handleSend exampleEnv (streaming [Chunk (deltaX @ [10])]) collidingState)
     = [greeting,
        \<lparr>id' = jstr ''900'', role = User, content = jstr ''first''\<rparr>,
        \<lparr>id' = jstr ''ai-2000'', role = Assistant, content = jstr ''Earlier''\<rparr>,
        userTurn,
        \<lparr>id' = jstr ''ai-2000'', role = Assistant, content = jstr ''X''\<rparr>]
   \<and> id' (last (messages (handleSend exampleEnv (streaming [Chunk (deltaX @ [10])])
          collidingState)))
     = id' (messages collidingState ! 2)"
  by (simp add: send_eval example_eval drain.simps line_eval json_eval)

text \<open>
  C1. Take any lines on which the loop body does not \<open>break\<close>: lines that carry a
  delta (a data line whose payload parses and whose \<open>choices[0].delta.content\<close> is
  truthy) and, between them, lines that are skipped or carry no content. Let the
  sentinel line follow them or not, and cut the text into chunks in any way. Then the
  send appends the user's message and, when there is a delta at all, exactly one
  assistant turn, whose content is the concatenation of the deltas in the order of
  arrival. The specification's three lines, with the deltas \<open>Hel\<close> and \<open>lo\<close>, give
  one new assistant turn with the content \<open>Hello\<close>.
\<close>

theorem deltas_land_in_one_turn:
  assumes "\<not> isLoading s" and "trim (input s) \<noteq> [] \<or> attachedFile s \<noteq> None"
    and "list_all2 (\<lambda>l x. 10 \<notin> set l \<and> lineEffect e (stripCR l) = Some x) ls xs"
    and "fin = [] \<or> fin = doneLine @ [10]"
    and "concat cs = concat (map (\<lambda>l. l @ [10]) ls) @ fin"
  shows "messages (handleSend e (streaming (map Chunk cs)) s)
         = messages s
           @ [\<lparr>id' = digitsOf (nowUser e), role = User, content = displayContent s\<rparr>]
           @ (if deltas xs = [] then [] else [aiTurn e (concat (deltas xs))])"
proof -
  let ?user = "\<lparr>id' = digitsOf (nowUser e), role = User, content = displayContent s\<rparr>"
  let ?base = "messages s @ [?user]"
  let ?s1 = "s\<lparr>messages := ?base, input := [], attachedFile := None, isLoading := True,
                assistantSoFar := []\<rparr>"
  have b: "?base \<noteq> []" "role (last ?base) = User"
    by simp_all
  have o: "opened e ?base ?s1"
    by (simp add: opened_def)
  have cs: "concat cs = linesText ls @ fin"
    using assms(5) by (simp add: linesText_def)
  have "pump e (map Chunk cs) (?s1\<lparr>textBuffer := []\<rparr>)
        = Returned ((feed e ?base xs ?s1)\<lparr>textBuffer := []\<rparr>)"
    by (rule effect_stream [OF b o assms(3,4) cs])
  then have "handleSend e (streaming (map Chunk cs)) s
             = (feed e ?base xs ?s1)\<lparr>textBuffer := [], isLoading := False\<rparr>"
    using assms(1,2) by (auto simp: handleSend_def tryBody_def streaming_def ok_def)
  then show ?thesis
    by (simp add: feed_messages)
qed

theorem deltas_land_in_one_turn_witness:
  "lineEffect exampleEnv (stripCR helLine) = Some (Some (jstr ''Hel''))
   \<and> lineEffect exampleEnv (stripCR loLine) = Some (Some (jstr ''lo''))
   \<and> messages (handleSend exampleEnv
        (streaming (map Chunk [helLine @ [10], loLine @ [10], doneLine @ [10]])) exampleState)
     = [greeting, userTurn, aiTurn exampleEnv (jstr ''Hello'')]"
proof -
  have a: "\<not> isLoading exampleState"
    by (simp add: exampleState_def)
  have b: "trim (input exampleState) \<noteq> [] \<or> attachedFile exampleState \<noteq> None"
    by (simp add: exampleState_def jstr_def trim_def isWhiteSpace_def)
  have h: "lineEffect exampleEnv (stripCR helLine) = Some (Some (jstr ''Hel''))"
    by (simp add: lineEffect_def helLine_def exampleEnv_def line_eval json_eval)
  have l: "lineEffect exampleEnv (stripCR loLine) = Some (Some (jstr ''lo''))"
    by (simp add: lineEffect_def loLine_def exampleEnv_def line_eval json_eval)
  have n: "10 \<notin> set helLine" "10 \<notin> set loLine"
    by (simp_all add: helLine_def loLine_def jstr_def)
  have d: "list_all2 (\<lambda>l x. 10 \<notin> set l \<and> lineEffect exampleEnv (stripCR l) = Some x)
             [helLine, loLine] [Some (jstr ''Hel''), Some (jstr ''lo'')]"
    using h l n by simp
  have f: "doneLine @ [10] = [] \<or> doneLine @ [10] = doneLine @ [10]"
    by simp
  have g: "concat [helLine @ [10], loLine @ [10], doneLine @ [10]]
           = concat (map (\<lambda>l. l @ [10]) [helLine, loLine]) @ doneLine @ [10]"
    by simp
  have u: "messages exampleState
             @ [\<lparr>id' = digitsOf (nowUser exampleEnv), role = User,
                 content = displayContent exampleState\<rparr>]
           = [greeting, userTurn]"
    by (simp add: send_eval example_eval jstr_def trim_def isWhiteSpace_def)
  have j: "deltas [Some (jstr ''Hel''), Some (jstr ''lo'')] = [jstr ''Hel'', jstr ''lo'']"
    "concat [jstr ''Hel'', jstr ''lo''] = jstr ''Hello''"
    by (simp_all add: deltas_def jstr_def)
  show ?thesis
    using h l u j deltas_land_in_one_turn [OF a b d f g] by simp
qed

end
